theory Spec2Isabelle
  imports Complex_Main "HOL-Library.Sublist" "HOL-Library.Multiset"
begin

section \<open>The file system seen by the cache cleanup module\<close>

text \<open>
  The module \<^verbatim>\<open>src/media/cleanup.ts\<close> talks to the file system through four calls of
  \<^verbatim>\<open>fs/promises\<close>: \<^verbatim>\<open>readdir\<close>, \<^verbatim>\<open>stat\<close>, \<^verbatim>\<open>unlink\<close> and \<^verbatim>\<open>rmdir\<close>. The file
  system is modelled as a finite tree; every call takes the tree and a path, and a
  call that rejects its promise returns \<open>None\<close>.

  A path is the list of its components. \<^verbatim>\<open>join(dir, name)\<close> appends a component (the names
  that \<^verbatim>\<open>readdir\<close> yields are never \<^verbatim>\<open>.\<close> or \<^verbatim>\<open>..\<close>), and \<^verbatim>\<open>join(dir, "..")\<close> drops the
  last one.

  Sizes are natural numbers, timestamps and limits are integers (whole milliseconds,
  bytes): the JavaScript numbers of the source are taken in the range where doubles are
  exact.
\<close>

type_synonym fpath = "string list"

definition join :: "fpath \<Rightarrow> string \<Rightarrow> fpath" where
  "join dir nm = dir @ [nm]"

definition parentDir :: "fpath \<Rightarrow> fpath" where
  "parentDir dir = butlast dir"

text \<open>What \<^verbatim>\<open>stat\<close> reports of a regular file: \<^verbatim>\<open>size\<close>, \<^verbatim>\<open>atimeMs\<close>, \<^verbatim>\<open>mtimeMs\<close>.\<close>

record Stats =
  st_size :: nat
  atimeMs :: int
  mtimeMs :: int

text \<open>
  A regular file carries the answer of \<^verbatim>\<open>stat\<close> (\<open>None\<close> when \<^verbatim>\<open>stat\<close> fails on it) and
  whether \<^verbatim>\<open>unlink\<close> is permitted on it. A directory carries whether it can be listed, and
  its entries in the order \<^verbatim>\<open>readdir\<close> yields them. Everything else (symbolic link, socket,
  device) is \<open>Other\<close>: neither \<^verbatim>\<open>isDirectory()\<close> nor \<^verbatim>\<open>isFile()\<close>.
\<close>

datatype node =
    File "Stats option" bool
  | Dir bool "(string \<times> node) list"
  | Other

datatype kind = KFile | KDir | KOther

datatype Dirent = Dirent (d_name: string) (d_kind: kind)

definition isDirectory :: "Dirent \<Rightarrow> bool" where
  "isDirectory e = (d_kind e = KDir)"

definition isFile :: "Dirent \<Rightarrow> bool" where
  "isFile e = (d_kind e = KFile)"

fun kindOf :: "node \<Rightarrow> kind" where
  "kindOf (File st rm) = KFile"
| "kindOf (Dir r es) = KDir"
| "kindOf Other = KOther"

fun lookup :: "node \<Rightarrow> fpath \<Rightarrow> node option" where
  "lookup n [] = Some n"
| "lookup (Dir r es) (c # cs) = (case map_of es c of None \<Rightarrow> None | Some m \<Rightarrow> lookup m cs)"
| "lookup _ (c # cs) = None"

text \<open>
  Removing the entry at a path (every entry of that name in its directory); the tree is
  unchanged where the path leads nowhere.
\<close>

fun removeAt :: "fpath \<Rightarrow> node \<Rightarrow> node" where
  "removeAt [c] (Dir r es) = Dir r (filter (\<lambda>(k, m). k \<noteq> c) es)"
| "removeAt (c # cs) (Dir r es) =
     Dir r (map (\<lambda>(k, m). if k = c then (k, removeAt cs m) else (k, m)) es)"
| "removeAt _ n = n"

definition readdir :: "fpath \<Rightarrow> node \<Rightarrow> Dirent list option" where
  "readdir dir fs =
     (case lookup fs dir of
        Some (Dir True es) \<Rightarrow> Some (map (\<lambda>(k, m). Dirent k (kindOf m)) es)
      | _ \<Rightarrow> None)"

definition stat :: "fpath \<Rightarrow> node \<Rightarrow> Stats option" where
  "stat p fs = (case lookup fs p of Some (File (Some st) rm) \<Rightarrow> Some st | _ \<Rightarrow> None)"

text \<open>The origin of the tree has no directory to be removed from.\<close>

definition unlink :: "fpath \<Rightarrow> node \<Rightarrow> node option" where
  "unlink p fs =
     (if p = [] then None
      else case lookup fs p of Some (File st True) \<Rightarrow> Some (removeAt p fs) | _ \<Rightarrow> None)"

definition rmdir :: "fpath \<Rightarrow> node \<Rightarrow> node option" where
  "rmdir p fs =
     (if p = [] then None
      else case lookup fs p of Some (Dir r []) \<Rightarrow> Some (removeAt p fs) | _ \<Rightarrow> None)"

section \<open>The data of \<^verbatim>\<open>cleanup.ts\<close>\<close>

text \<open>
  The interfaces \<^verbatim>\<open>CleanupConfig\<close>, \<^verbatim>\<open>CachedFile\<close> and \<^verbatim>\<open>CleanupResult\<close>. The field \<^verbatim>\<open>size\<close>
  of a cached file is \<open>fsize\<close> here, since \<open>size\<close> is a constant of HOL.
\<close>

record CleanupConfig =
  cacheDirectory :: fpath
  maxSizeBytes :: int
  ttlMs :: int

record CachedFile =
  path :: fpath
  fsize :: nat
  accessTime :: int
  modTime :: int

record CleanupResult =
  filesDeleted :: nat
  bytesFreed :: nat
  expiredFiles :: "fpath list"
  lruFiles :: "fpath list"
  errors :: "string list"

text \<open>A path as the string that a template literal prints.\<close>

fun pathString :: "fpath \<Rightarrow> string" where
  "pathString [] = []"
| "pathString [c] = c"
| "pathString (c # cs) = c @ ''/'' @ pathString cs"

section \<open>\<^verbatim>\<open>getAllFiles\<close>\<close>

text \<open>The body of the \<^verbatim>\<open>for\<close> loop of \<^verbatim>\<open>getAllFiles\<close> for a regular file.\<close>

definition statEntry :: "fpath \<Rightarrow> node \<Rightarrow> CachedFile list" where
  "statEntry fullPath fs =
     (case stat fullPath fs of
        Some stats \<Rightarrow>
          [\<lparr>path = fullPath, fsize = st_size stats,
            accessTime = atimeMs stats, modTime = mtimeMs stats\<rparr>]
      | None \<Rightarrow> [])"

function getAllFiles :: "fpath \<Rightarrow> node \<Rightarrow> CachedFile list" where
  "getAllFiles dir fs =
     (case readdir dir fs of
        None \<Rightarrow> []
      | Some entries \<Rightarrow>
          concat (map (\<lambda>entry.
            if isDirectory entry then getAllFiles (join dir (d_name entry)) fs
            else if isFile entry then statEntry (join dir (d_name entry)) fs
            else []) entries))"
  by pat_completeness auto

section \<open>\<^verbatim>\<open>safeDelete\<close> and \<^verbatim>\<open>cleanEmptyDirs\<close>\<close>

definition safeDelete :: "fpath \<Rightarrow> node \<Rightarrow> bool \<times> node" where
  "safeDelete filePath fs =
     (case unlink filePath fs of Some fs' \<Rightarrow> (True, fs') | None \<Rightarrow> (False, fs))"

function cleanEmptyDirs :: "fpath \<Rightarrow> fpath \<Rightarrow> node \<Rightarrow> node" where
  "cleanEmptyDirs dir rootDir fs =
     (if dir = rootDir then fs
      else case readdir dir fs of
        None \<Rightarrow> fs
      | Some entries \<Rightarrow>
          if length entries = 0 then
            (case rmdir dir fs of
               None \<Rightarrow> fs
             | Some fs' \<Rightarrow> cleanEmptyDirs (parentDir dir) rootDir fs')
          else fs)"
  by pat_completeness auto
termination
  by (relation "measure (\<lambda>(dir, rootDir, fs). length dir)")
     (auto simp: rmdir_def parentDir_def split: if_splits)

section \<open>\<^verbatim>\<open>runCleanup\<close>\<close>

text \<open>
  Step 1, the loop over \<^verbatim>\<open>files\<close>. Its state is the report, \<^verbatim>\<open>remainingFiles\<close> and the
  file system.
\<close>

fun deleteExpired ::
  "CleanupConfig \<Rightarrow> int \<Rightarrow> CachedFile list \<Rightarrow> CleanupResult \<times> CachedFile list \<times> node
     \<Rightarrow> CleanupResult \<times> CachedFile list \<times> node" where
  "deleteExpired config now [] st = st"
| "deleteExpired config now (file # files) (result, remainingFiles, fs) =
     (let age = now - modTime file in
      if age > ttlMs config then
        (let (deleted, fs') = safeDelete (path file) fs in
         if deleted then
           deleteExpired config now files
             (result\<lparr>filesDeleted := filesDeleted result + 1,
                     bytesFreed := bytesFreed result + fsize file,
                     expiredFiles := expiredFiles result @ [path file]\<rparr>,
              remainingFiles, fs')
         else
           deleteExpired config now files
             (result\<lparr>errors := errors result @
                       [''Failed to delete expired file: '' @ pathString (path file)]\<rparr>,
              remainingFiles, fs'))
      else deleteExpired config now files (result, remainingFiles @ [file], fs))"

text \<open>
  Step 2, the loop over the sorted \<^verbatim>\<open>remainingFiles\<close>. Its state is the report,
  \<^verbatim>\<open>currentSize\<close> and the file system; \<^verbatim>\<open>break\<close> returns the state.
\<close>

fun deleteLru ::
  "CleanupConfig \<Rightarrow> CachedFile list \<Rightarrow> CleanupResult \<times> int \<times> node
     \<Rightarrow> CleanupResult \<times> int \<times> node" where
  "deleteLru config [] st = st"
| "deleteLru config (file # files) (result, currentSize, fs) =
     (if currentSize \<le> maxSizeBytes config then (result, currentSize, fs)
      else
        (let (deleted, fs') = safeDelete (path file) fs in
         if deleted then
           deleteLru config files
             (result\<lparr>filesDeleted := filesDeleted result + 1,
                     bytesFreed := bytesFreed result + fsize file,
                     lruFiles := lruFiles result @ [path file]\<rparr>,
              currentSize - int (fsize file), fs')
         else
           deleteLru config files
             (result\<lparr>errors := errors result @
                       [''Failed to delete LRU file: '' @ pathString (path file)]\<rparr>,
              currentSize, fs')))"

definition emptyResult :: CleanupResult where
  "emptyResult =
     \<lparr>filesDeleted = 0, bytesFreed = 0, expiredFiles = [], lruFiles = [], errors = []\<rparr>"

definition totalSize :: "CachedFile list \<Rightarrow> int" where
  "totalSize files = foldl (\<lambda>sum f. sum + int (fsize f)) 0 files"

text \<open>
  \<^verbatim>\<open>Array.prototype.sort\<close> is stable, and so is \<open>sort_key\<close>. \<^verbatim>\<open>Date.now()\<close> is the
  argument \<open>now\<close>. The function returns the report and the file system it leaves.
\<close>

definition runCleanup :: "CleanupConfig \<Rightarrow> int \<Rightarrow> node \<Rightarrow> CleanupResult \<times> node" where
  "runCleanup config now fs =
     (let files = getAllFiles (cacheDirectory config) fs in
      if length files = 0 then (emptyResult, fs)
      else
        (let (result, remainingFiles, fs1) =
               deleteExpired config now files (emptyResult, [], fs);
             currentSize = totalSize remainingFiles;
             (result, currentSize, fs2) =
               (if currentSize > maxSizeBytes config then
                  deleteLru config (sort_key accessTime remainingFiles)
                    (result, currentSize, fs1)
                else (result, currentSize, fs1));
             fs3 = cleanEmptyDirs (cacheDirectory config) (cacheDirectory config) fs2
         in (result, fs3)))"

section \<open>\<^verbatim>\<open>getCacheStats\<close>\<close>

text \<open>
  \<^verbatim>\<open>oldestFile\<close> and \<^verbatim>\<open>newestFile\<close> are pairs of a path and an age. \<^verbatim>\<open>totalSizeGb\<close> is given
  in exact rational arithmetic.
\<close>

record CacheStats =
  totalFiles :: nat
  totalSizeBytes :: nat
  totalSizeGb :: rat
  oldestFile :: "(fpath \<times> int) option"
  newestFile :: "(fpath \<times> int) option"

fun oldestNewest ::
  "CachedFile list \<Rightarrow> CachedFile option \<times> CachedFile option
     \<Rightarrow> CachedFile option \<times> CachedFile option" where
  "oldestNewest [] st = st"
| "oldestNewest (file # files) (oldest, newest) =
     oldestNewest files
       ((case oldest of
           Some old \<Rightarrow> if modTime file < modTime old then Some file else oldest
         | None \<Rightarrow> oldest),
        (case newest of
           Some new \<Rightarrow> if modTime file > modTime new then Some file else newest
         | None \<Rightarrow> newest))"

definition firstFile :: "CachedFile list \<Rightarrow> CachedFile option" where
  "firstFile files = (case files of [] \<Rightarrow> None | f # _ \<Rightarrow> Some f)"

definition getCacheStats :: "fpath \<Rightarrow> int \<Rightarrow> node \<Rightarrow> CacheStats" where
  "getCacheStats cacheDir now fs =
     (let files = getAllFiles cacheDir fs in
      if length files = 0 then
        \<lparr>totalFiles = 0, totalSizeBytes = 0, totalSizeGb = 0,
         oldestFile = None, newestFile = None\<rparr>
      else
        (let total = foldl (\<lambda>sum f. sum + fsize f) 0 files;
             (oldest, newest) = oldestNewest files (firstFile files, firstFile files)
         in \<lparr>totalFiles = length files,
             totalSizeBytes = total,
             totalSizeGb =
               of_int (round (of_nat total / (1024 * 1024 * 1024) * 100 :: rat)) / 100,
             oldestFile =
               (case oldest of Some old \<Rightarrow> Some (path old, now - modTime old) | None \<Rightarrow> None),
             newestFile =
               (case newest of Some new \<Rightarrow> Some (path new, now - modTime new) | None \<Rightarrow> None)\<rparr>))"

section \<open>Example file systems and auxiliary notions\<close>

text \<open>
  A cache directory \<^verbatim>\<open>cache\<close> with the file \<^verbatim>\<open>A\<close> and, in the subdirectory \<^verbatim>\<open>sub\<close>, the
  file \<^verbatim>\<open>B\<close>.
\<close>

definition fsExample :: node where
  "fsExample =
     Dir True [(''cache'', Dir True
       [(''A'', File (Some \<lparr>st_size = 100, atimeMs = 5, mtimeMs = 0\<rparr>) True),
        (''sub'', Dir True
          [(''B'', File (Some \<lparr>st_size = 100, atimeMs = 7, mtimeMs = 47\<rparr>) True)])])]"

text \<open>
  A cache with the expired files \<^verbatim>\<open>A\<close> and \<^verbatim>\<open>L\<close> and the fresh files \<^verbatim>\<open>K\<close>, \<^verbatim>\<open>B\<close> and
  \<^verbatim>\<open>C\<close> (at time 48, with a time to live of 24), where \<^verbatim>\<open>L\<close> and \<^verbatim>\<open>K\<close> cannot be
  unlinked; and what a run leaves of it.
\<close>

definition fsLocked :: node where
  "fsLocked =
     Dir True [(''cache'', Dir True
       [(''A'', File (Some \<lparr>st_size = 100, atimeMs = 5, mtimeMs = 0\<rparr>) True),
        (''L'', File (Some \<lparr>st_size = 30, atimeMs = 6, mtimeMs = 1\<rparr>) False),
        (''K'', File (Some \<lparr>st_size = 40, atimeMs = 1, mtimeMs = 40\<rparr>) False),
        (''sub'', Dir True
          [(''B'', File (Some \<lparr>st_size = 100, atimeMs = 7, mtimeMs = 47\<rparr>) True),
           (''C'', File (Some \<lparr>st_size = 50, atimeMs = 3, mtimeMs = 45\<rparr>) True)])])]"

definition cfgLocked :: CleanupConfig where
  "cfgLocked = \<lparr>cacheDirectory = [''cache''], maxSizeBytes = 120, ttlMs = 24\<rparr>"

definition fsLockedAfter :: node where
  "fsLockedAfter =
     Dir True [(''cache'', Dir True
       [(''L'', File (Some \<lparr>st_size = 30, atimeMs = 6, mtimeMs = 1\<rparr>) False),
        (''K'', File (Some \<lparr>st_size = 40, atimeMs = 1, mtimeMs = 40\<rparr>) False),
        (''sub'', Dir True [])])]"

text \<open>A cache with an empty file, and a size limit of zero.\<close>

definition fsZero :: node where
  "fsZero =
     Dir True [(''cache'', Dir True
       [(''Z'', File (Some \<lparr>st_size = 0, atimeMs = 9, mtimeMs = 40\<rparr>) True),
        (''A'', File (Some \<lparr>st_size = 100, atimeMs = 5, mtimeMs = 30\<rparr>) True)])]"

definition cfgZero :: CleanupConfig where
  "cfgZero = \<lparr>cacheDirectory = [''cache''], maxSizeBytes = 0, ttlMs = 24\<rparr>"

definition cfgExample :: CleanupConfig where
  "cfgExample = \<lparr>cacheDirectory = [''cache''], maxSizeBytes = 150, ttlMs = 100\<rparr>"

text \<open>
  \<open>firstMin c l\<close>: \<open>c\<close> is the first element of \<open>l\<close> with the least modification time;
  \<open>firstMax c l\<close>: the first with the greatest.
\<close>

definition firstMin :: "CachedFile \<Rightarrow> CachedFile list \<Rightarrow> bool" where
  "firstMin c l \<longleftrightarrow> (\<exists>ys zs. l = ys @ c # zs \<and> (\<forall>y\<in>set ys. modTime c < modTime y)
       \<and> (\<forall>z\<in>set zs. modTime c \<le> modTime z))"

definition firstMax :: "CachedFile \<Rightarrow> CachedFile list \<Rightarrow> bool" where
  "firstMax c l \<longleftrightarrow> (\<exists>ys zs. l = ys @ c # zs \<and> (\<forall>y\<in>set ys. modTime y < modTime c)
       \<and> (\<forall>z\<in>set zs. modTime z \<le> modTime c))"

text \<open>
  \<open>fileAt fs p\<close> is the regular file at the path \<open>p\<close>, if there is one: what \<^verbatim>\<open>stat\<close> answers
  on it and whether it may be unlinked. \<open>deletable fs p\<close>: \<^verbatim>\<open>unlink\<close> succeeds on \<open>p\<close>.
\<close>

definition fileAt :: "node \<Rightarrow> fpath \<Rightarrow> (Stats option \<times> bool) option" where
  "fileAt fs p = (case lookup fs p of Some (File st rm) \<Rightarrow> Some (st, rm) | _ \<Rightarrow> None)"

definition deletable :: "node \<Rightarrow> fpath \<Rightarrow> bool" where
  "deletable fs p = (case unlink p fs of Some fs' \<Rightarrow> True | None \<Rightarrow> False)"

text \<open>In a well-formed tree the names within a directory are distinct.\<close>

fun wellFormed :: "node \<Rightarrow> bool" where
  "wellFormed (Dir r es) = (distinct (map fst es) \<and> (\<forall>(k, m)\<in>set es. wellFormed m))"
| "wellFormed _ = True"

text \<open>
  The files that the loop of step 2 reaches: it goes through the list while the running
  total \<open>cs\<close> exceeds the limit, and the total drops by the size of a file when its
  deletion succeeds (\<open>ok\<close>).
\<close>

fun lruAttempts :: "int \<Rightarrow> (fpath \<Rightarrow> bool) \<Rightarrow> int \<Rightarrow> CachedFile list \<Rightarrow> CachedFile list" where
  "lruAttempts limit ok cs [] = []"
| "lruAttempts limit ok cs (f # fs) =
     (if cs \<le> limit then []
      else f # lruAttempts limit ok (if ok (path f) then cs - int (fsize f) else cs) fs)"

text \<open>
  The plan of a run, read off the inventory and the file system at the start: the files
  past their time to live, deleted or not according to \<open>deletable\<close>; the survivors of step 1;
  the files that step 2 reaches, deleted or not.
\<close>

definition isExpired :: "CleanupConfig \<Rightarrow> int \<Rightarrow> CachedFile \<Rightarrow> bool" where
  "isExpired cfg now f \<longleftrightarrow> now - modTime f > ttlMs cfg"

definition survivors :: "CleanupConfig \<Rightarrow> int \<Rightarrow> node \<Rightarrow> CachedFile list" where
  "survivors cfg now fs =
     filter (\<lambda>f. \<not> isExpired cfg now f) (getAllFiles (cacheDirectory cfg) fs)"

definition expiredDeleted :: "CleanupConfig \<Rightarrow> int \<Rightarrow> node \<Rightarrow> CachedFile list" where
  "expiredDeleted cfg now fs =
     filter (\<lambda>f. isExpired cfg now f \<and> deletable fs (path f)) (getAllFiles (cacheDirectory cfg) fs)"

definition expiredFailed :: "CleanupConfig \<Rightarrow> int \<Rightarrow> node \<Rightarrow> CachedFile list" where
  "expiredFailed cfg now fs =
     filter (\<lambda>f. isExpired cfg now f \<and> \<not> deletable fs (path f))
       (getAllFiles (cacheDirectory cfg) fs)"

definition lruTried :: "CleanupConfig \<Rightarrow> int \<Rightarrow> node \<Rightarrow> CachedFile list" where
  "lruTried cfg now fs =
     (if totalSize (survivors cfg now fs) > maxSizeBytes cfg then
        lruAttempts (maxSizeBytes cfg) (deletable fs) (totalSize (survivors cfg now fs))
          (sort_key accessTime (survivors cfg now fs))
      else [])"

definition lruDeleted :: "CleanupConfig \<Rightarrow> int \<Rightarrow> node \<Rightarrow> CachedFile list" where
  "lruDeleted cfg now fs = filter (\<lambda>f. deletable fs (path f)) (lruTried cfg now fs)"

definition lruFailed :: "CleanupConfig \<Rightarrow> int \<Rightarrow> node \<Rightarrow> CachedFile list" where
  "lruFailed cfg now fs = filter (\<lambda>f. \<not> deletable fs (path f)) (lruTried cfg now fs)"

section \<open>Termination of the directory walk\<close>

text \<open>The walk descends into a child of the directory it lists, a smaller tree.\<close>

lemma size_child:
  "(k, m) \<in> set es \<Longrightarrow> size m < Suc (size_list (size_prod (\<lambda>_. 0) size) es)"
  by (induction es) auto

lemma lookup_join:
  "lookup fs (dir @ [c]) =
     (case lookup fs dir of Some (Dir r es) \<Rightarrow> map_of es c | _ \<Rightarrow> None)"
proof (induction fs dir rule: lookup.induct)
  case (1 n)
  then show ?case by (cases n) (auto split: option.splits)
next
  case (2 r es c cs)
  then show ?case by (auto split: option.splits)
qed auto

lemma readdir_child_smaller:
  assumes "readdir dir fs = Some entries" and "e \<in> set entries"
  shows "(case lookup fs (join dir (d_name e)) of None \<Rightarrow> 0 | Some n \<Rightarrow> size n)
         < (case lookup fs dir of None \<Rightarrow> 0 | Some n \<Rightarrow> size n)"
proof -
  from assms(1) obtain es where d: "lookup fs dir = Some (Dir True es)"
    and en: "entries = map (\<lambda>(k, m). Dirent k (kindOf m)) es"
    by (auto simp: readdir_def split: option.splits node.splits bool.splits)
  from assms(2) en obtain k m where km: "(k, m) \<in> set es" and e: "e = Dirent k (kindOf m)"
    by auto
  from km obtain m' where m': "map_of es k = Some m'"
    by (metis weak_map_of_SomeI)
  then have "(k, m') \<in> set es" by (rule map_of_SomeD)
  then have "size m' < size (Dir True es)" using size_child [of k m' es] by simp
  with d m' e show ?thesis by (simp add: join_def lookup_join)
qed

termination getAllFiles
  by (relation "measure (\<lambda>(dir, fs). case lookup fs dir of None \<Rightarrow> 0 | Some n \<Rightarrow> size n)")
     (auto dest: readdir_child_smaller)

declare getAllFiles.simps [simp del] cleanEmptyDirs.simps [simp del]

section \<open>The file system after an \<^verbatim>\<open>unlink\<close>\<close>

lemma map_of_filter_key:
  "map_of (filter (\<lambda>(k, m). k \<noteq> c) es) a = (if a = c then None else map_of es a)"
  by (induction es) auto

lemma map_of_map_key:
  "map_of (map (\<lambda>(k, m). if k = c then (k, g m) else (k, m)) es) a =
     (if a = c then map_option g (map_of es a) else map_of es a)"
  by (induction es) auto

lemma fileAt_Nil: "fileAt fs [] = (case fs of File st rm \<Rightarrow> Some (st, rm) | _ \<Rightarrow> None)"
  by (simp add: fileAt_def)

lemma fileAt_Cons:
  "fileAt fs (c # cs) =
     (case fs of Dir r es \<Rightarrow> (case map_of es c of None \<Rightarrow> None | Some m \<Rightarrow> fileAt m cs)
      | _ \<Rightarrow> None)"
  by (cases fs) (auto simp: fileAt_def split: option.splits)

lemma fileAt_File: "q \<noteq> [] \<Longrightarrow> fileAt (File st rm) q = None"
  by (cases q) (auto simp: fileAt_Cons)

lemma fileAt_Other: "q \<noteq> [] \<Longrightarrow> fileAt Other q = None"
  by (cases q) (auto simp: fileAt_Cons)

lemma fileAt_removeAt:
  "q \<noteq> [] \<Longrightarrow> fileAt fs q \<noteq> None \<Longrightarrow>
   fileAt (removeAt q fs) p = (if p = q then None else fileAt fs p)"
proof (induction q fs arbitrary: p rule: removeAt.induct)
  case (1 c r es)
  then obtain m where m: "map_of es c = Some m" and f: "fileAt m [] \<noteq> None"
    by (auto simp: fileAt_Cons split: option.splits)
  show ?case
  proof (cases p)
    case Nil
    then show ?thesis by (simp add: fileAt_Nil)
  next
    case (Cons a as)
    show ?thesis
    proof (cases as)
      case Nil
      with Cons m show ?thesis by (simp add: fileAt_Cons map_of_filter_key)
    next
      case (Cons b bs)
      with \<open>p = a # as\<close> m f show ?thesis
        by (cases m) (auto simp: fileAt_Cons fileAt_Nil map_of_filter_key)
    qed
  qed
next
  case (2 c v va r es)
  then obtain m where m: "map_of es c = Some m" and f: "fileAt m (v # va) \<noteq> None"
    by (auto simp: fileAt_Cons split: option.splits)
  from m have "(c, m) \<in> set es" by (rule map_of_SomeD)
  then have IH: "\<And>p. fileAt (removeAt (v # va) m) p = (if p = v # va then None else fileAt m p)"
    using 2(1) [of "(c, m)" c m] f by simp
  show ?case
  proof (cases p)
    case Nil
    then show ?thesis by (simp add: fileAt_Nil)
  next
    case (Cons a as)
    have 1: "fileAt (removeAt (c # v # va) (Dir r es)) (a # as) =
          (if a = c then fileAt (removeAt (v # va) m) as else fileAt (Dir r es) (a # as))"
      using m by (simp add: fileAt_Cons map_of_map_key)
    have 2: "fileAt (Dir r es) (c # as) = fileAt m as"
      using m by (simp add: fileAt_Cons)
    show ?thesis unfolding Cons 1 IH using 2 by auto
  qed
qed (auto simp: fileAt_File fileAt_Other)

lemma kindOf_removeAt: "kindOf (removeAt q n) = kindOf n"
  by (induction q n rule: removeAt.induct) auto

lemma readdir_Nil:
  "readdir [] fs = (case fs of Dir True es \<Rightarrow> Some (map (\<lambda>(k, m). Dirent k (kindOf m)) es) | _ \<Rightarrow> None)"
  by (simp add: readdir_def)

lemma readdir_Cons:
  "readdir (c # cs) fs =
     (case fs of Dir r es \<Rightarrow> (case map_of es c of None \<Rightarrow> None | Some m \<Rightarrow> readdir cs m)
      | _ \<Rightarrow> None)"
  by (cases fs) (auto simp: readdir_def split: option.splits)

lemma readdir_file: "fileAt fs q \<noteq> None \<Longrightarrow> readdir q fs = None"
  by (auto simp: fileAt_def readdir_def split: option.splits node.splits)

lemma readdir_removeAt:
  "q \<noteq> [] \<Longrightarrow> fileAt fs q \<noteq> None \<Longrightarrow>
   readdir dir (removeAt q fs) =
     map_option (filter (\<lambda>e. join dir (d_name e) \<noteq> q)) (readdir dir fs)"
proof (induction q fs arbitrary: dir rule: removeAt.induct)
  case (1 c r es)
  then obtain m where m: "map_of es c = Some m" and f: "fileAt m [] \<noteq> None"
    by (auto simp: fileAt_Cons split: option.splits)
  show ?case
  proof (cases dir)
    case Nil
    have "map (\<lambda>(k, m). Dirent k (kindOf m)) (filter (\<lambda>(k, m). k \<noteq> c) es) =
          filter (\<lambda>e. d_name e \<noteq> c) (map (\<lambda>(k, m). Dirent k (kindOf m)) es)"
      by (induction es) auto
    with Nil show ?thesis by (simp add: readdir_Nil join_def split: bool.splits)
  next
    case (Cons a as)
    show ?thesis
    proof (cases "a = c")
      case True
      with Cons m f show ?thesis
        by (cases as; cases m) (auto simp: readdir_Cons readdir_Nil map_of_filter_key fileAt_Nil)
    next
      case False
      with Cons show ?thesis
        by (auto simp: readdir_Cons map_of_filter_key join_def option.map_ident
                 split: option.splits)
    qed
  qed
next
  case (2 c v va r es)
  then obtain m where m: "map_of es c = Some m" and f: "fileAt m (v # va) \<noteq> None"
    by (auto simp: fileAt_Cons split: option.splits)
  from m have "(c, m) \<in> set es" by (rule map_of_SomeD)
  then have IH: "\<And>dir. readdir dir (removeAt (v # va) m) =
       map_option (filter (\<lambda>e. join dir (d_name e) \<noteq> v # va)) (readdir dir m)"
    using 2(1) [of "(c, m)" c m] f by simp
  show ?case
  proof (cases dir)
    case Nil
    have "map (\<lambda>(k, m). Dirent k (kindOf m))
            (map (\<lambda>(k, m). if k = c then (k, removeAt (v # va) m) else (k, m)) es) =
          map (\<lambda>(k, m). Dirent k (kindOf m)) es"
      by (induction es) (auto simp: kindOf_removeAt)
    with Nil show ?thesis by (simp add: readdir_Nil join_def split: bool.splits)
  next
    case (Cons a as)
    with m IH show ?thesis
      by (auto simp: readdir_Cons map_of_map_key join_def option.map_ident split: option.splits)
  qed
qed (auto simp: fileAt_File fileAt_Other)

section \<open>The inventory\<close>

lemma stat_fileAt:
  "stat p fs = (case fileAt fs p of Some (Some st, rm) \<Rightarrow> Some st | _ \<Rightarrow> None)"
  by (auto simp: stat_def fileAt_def split: option.splits node.splits)

lemma unlink_fileAt:
  "unlink p fs =
     (if p = [] then None
      else case fileAt fs p of Some (st, True) \<Rightarrow> Some (removeAt p fs) | _ \<Rightarrow> None)"
  by (auto simp: unlink_def fileAt_def split: option.splits node.splits bool.splits)

lemma deletable_fileAt:
  "deletable fs p \<longleftrightarrow> p \<noteq> [] \<and> (\<exists>st. fileAt fs p = Some (st, True))"
  by (auto simp: deletable_def unlink_fileAt split: option.splits bool.splits)

lemma unlink_deletable:
  "unlink p fs = (if deletable fs p then Some (removeAt p fs) else None)"
  by (auto simp: deletable_def unlink_def split: option.splits node.splits bool.splits)

lemma stat_removeAt:
  "q \<noteq> [] \<Longrightarrow> fileAt fs q \<noteq> None \<Longrightarrow>
   stat p (removeAt q fs) = (if p = q then None else stat p fs)"
  by (simp add: stat_fileAt fileAt_removeAt)

lemma deletable_removeAt:
  "q \<noteq> [] \<Longrightarrow> fileAt fs q \<noteq> None \<Longrightarrow>
   deletable (removeAt q fs) p = (if p = q then False else deletable fs p)"
  by (simp add: deletable_fileAt fileAt_removeAt)

lemma Stats_eta: "\<lparr>st_size = st_size s, atimeMs = atimeMs s, mtimeMs = mtimeMs s\<rparr> = (s::Stats)"
  by (cases s) simp

lemma getAllFiles_mem:
  "f \<in> set (getAllFiles dir fs) \<longleftrightarrow>
     (\<exists>entries e. readdir dir fs = Some entries \<and> e \<in> set entries
        \<and> f \<in> set (if isDirectory e then getAllFiles (join dir (d_name e)) fs
                      else if isFile e then statEntry (join dir (d_name e)) fs else []))"
proof (cases "readdir dir fs")
  case None
  then show ?thesis by (simp add: getAllFiles.simps [of dir fs])
next
  case (Some entries)
  define g where "g = (\<lambda>e. if isDirectory e then getAllFiles (join dir (d_name e)) fs
                      else if isFile e then statEntry (join dir (d_name e)) fs else [])"
  have "getAllFiles dir fs = concat (map g entries)"
    using Some by (simp add: getAllFiles.simps [of dir fs] g_def)
  then have "f \<in> set (getAllFiles dir fs) \<longleftrightarrow> (\<exists>e. e \<in> set entries \<and> f \<in> set (g e))"
    by auto
  also have "\<dots> \<longleftrightarrow> (\<exists>entries' e. readdir dir fs = Some entries' \<and> e \<in> set entries'
      \<and> f \<in> set (g e))"
    using Some by simp
  finally show ?thesis unfolding g_def .
qed

lemma getAllFiles_stat:
  "f \<in> set (getAllFiles dir fs) \<Longrightarrow>
   stat (path f) fs = Some \<lparr>st_size = fsize f, atimeMs = accessTime f, mtimeMs = modTime f\<rparr>"
proof (induction dir fs rule: getAllFiles.induct)
  case (1 dir fs)
  from "1.prems" obtain entries e where r: "readdir dir fs = Some entries"
    and e: "e \<in> set entries"
    and f: "f \<in> set (if isDirectory e then getAllFiles (join dir (d_name e)) fs
                      else if isFile e then statEntry (join dir (d_name e)) fs else [])"
    unfolding getAllFiles_mem [of f dir fs] by blast
  show ?case
  proof (cases "isDirectory e")
    case True
    with f "1.IH" [OF r e] show ?thesis by simp
  next
    case False
    with f show ?thesis by (auto simp: statEntry_def Stats_eta split: if_splits option.splits)
  qed
qed

lemma getAllFiles_path:
  "f \<in> set (getAllFiles dir fs) \<Longrightarrow> \<exists>c rest. path f = dir @ c # rest"
proof (induction dir fs rule: getAllFiles.induct)
  case (1 dir fs)
  from "1.prems" obtain entries e where r: "readdir dir fs = Some entries"
    and e: "e \<in> set entries"
    and f: "f \<in> set (if isDirectory e then getAllFiles (join dir (d_name e)) fs
                      else if isFile e then statEntry (join dir (d_name e)) fs else [])"
    unfolding getAllFiles_mem [of f dir fs] by blast
  show ?case
  proof (cases "isDirectory e")
    case True
    with f "1.IH" [OF r e] show ?thesis by (auto simp: join_def)
  next
    case False
    with f show ?thesis by (auto simp: statEntry_def join_def split: if_splits option.splits)
  qed
qed

lemma getAllFiles_fileAt: "f \<in> set (getAllFiles dir fs) \<Longrightarrow> fileAt fs (path f) \<noteq> None"
  by (drule getAllFiles_stat) (auto simp: stat_fileAt split: option.splits)

lemma getAllFiles_path_nonempty: "f \<in> set (getAllFiles dir fs) \<Longrightarrow> path f \<noteq> []"
  by (drule getAllFiles_path) auto

lemma concat_map_filter_keep:
  "(\<And>e. e \<in> set es \<Longrightarrow> keep e \<Longrightarrow> h' e = h e) \<Longrightarrow>
   (\<And>e. e \<in> set es \<Longrightarrow> \<not> keep e \<Longrightarrow> h e = []) \<Longrightarrow>
   concat (map h' (filter keep es)) = concat (map h es)"
  by (induction es) auto

lemma statEntry_removeAt:
  "q \<noteq> [] \<Longrightarrow> fileAt fs q \<noteq> None \<Longrightarrow>
   statEntry p (removeAt q fs) = filter (\<lambda>f. path f \<noteq> q) (statEntry p fs)"
  by (auto simp: statEntry_def stat_removeAt split: option.splits)

lemma getAllFiles_file: "fileAt fs q \<noteq> None \<Longrightarrow> getAllFiles q fs = []"
  by (simp add: getAllFiles.simps [of q fs] readdir_file)

lemma getAllFiles_removeAt:
  "q \<noteq> [] \<Longrightarrow> fileAt fs q \<noteq> None \<Longrightarrow>
   getAllFiles dir (removeAt q fs) = filter (\<lambda>f. path f \<noteq> q) (getAllFiles dir fs)"
proof (induction dir fs rule: getAllFiles.induct)
  case (1 dir fs)
  note q = "1.prems"
  show ?case
  proof (cases "readdir dir fs")
    case None
    then have "readdir dir (removeAt q fs) = None" using q by (simp add: readdir_removeAt)
    with None show ?thesis
      by (simp add: getAllFiles.simps [of dir fs] getAllFiles.simps [of dir "removeAt q fs"])
  next
    case (Some entries)
    let ?keep = "\<lambda>e. join dir (d_name e) \<noteq> q"
    let ?h' = "\<lambda>e. if isDirectory e then getAllFiles (join dir (d_name e)) (removeAt q fs)
                    else if isFile e then statEntry (join dir (d_name e)) (removeAt q fs) else []"
    let ?h = "\<lambda>e. filter (\<lambda>f. path f \<noteq> q)
                   (if isDirectory e then getAllFiles (join dir (d_name e)) fs
                    else if isFile e then statEntry (join dir (d_name e)) fs else [])"
    have r': "readdir dir (removeAt q fs) = Some (filter ?keep entries)"
      using q Some by (simp add: readdir_removeAt)
    have a: "?h' e = ?h e" if "e \<in> set entries" for e
      using "1.IH" [OF Some that _ q] q by (simp add: statEntry_removeAt)
    have b: "?h e = []" if "e \<in> set entries" "\<not> ?keep e" for e
      using that q by (auto simp: getAllFiles_file statEntry_def split: option.splits)
    have "getAllFiles dir (removeAt q fs) = concat (map ?h' (filter ?keep entries))"
      using r' by (simp add: getAllFiles.simps [of dir "removeAt q fs"])
    also have "\<dots> = concat (map ?h entries)"
    proof (rule concat_map_filter_keep)
      fix e assume "e \<in> set entries"
      then show "?h' e = ?h e" by (rule a)
    next
      fix e assume "e \<in> set entries" "\<not> ?keep e"
      then show "?h e = []" by (rule b)
    qed
    also have "\<dots> = filter (\<lambda>f. path f \<noteq> q) (getAllFiles dir fs)"
      using Some by (simp add: getAllFiles.simps [of dir fs] filter_concat comp_def)
    finally show ?thesis .
  qed
qed

lemma wellFormed_lookup: "wellFormed fs \<Longrightarrow> lookup fs p = Some n \<Longrightarrow> wellFormed n"
proof (induction fs p rule: lookup.induct)
  case (2 r es c cs)
  then show ?case by (auto split: option.splits dest!: map_of_SomeD)
qed auto

lemma readdir_distinct:
  assumes "wellFormed fs" "readdir dir fs = Some entries"
  shows "distinct (map d_name entries)"
proof -
  from assms(2) obtain es where d: "lookup fs dir = Some (Dir True es)"
    and en: "entries = map (\<lambda>(k, m). Dirent k (kindOf m)) es"
    by (auto simp: readdir_def split: option.splits node.splits bool.splits)
  from wellFormed_lookup [OF assms(1) d] have "distinct (map fst es)" by simp
  moreover have "map d_name entries = map fst es" unfolding en by (induction es) auto
  ultimately show ?thesis by simp
qed

lemma distinct_concat_keys:
  "distinct (map k es) \<Longrightarrow> (\<And>e. e \<in> set es \<Longrightarrow> distinct (h e)) \<Longrightarrow>
   (\<And>e x. e \<in> set es \<Longrightarrow> x \<in> set (h e) \<Longrightarrow> key x = k e) \<Longrightarrow>
   distinct (concat (map h es))"
proof (induction es)
  case Nil
  then show ?case by simp
next
  case (Cons e es)
  have "set (h e) \<inter> set (concat (map h es)) = {}"
  proof (rule ccontr)
    assume "set (h e) \<inter> set (concat (map h es)) \<noteq> {}"
    then obtain x e' where "x \<in> set (h e)" "e' \<in> set es" "x \<in> set (h e')" by auto
    then have "k e = k e'" using Cons.prems(3) [of e x] Cons.prems(3) [of e' x] by simp
    with \<open>e' \<in> set es\<close> Cons.prems(1) show False by auto
  qed
  moreover have "distinct (concat (map h es))" using Cons by simp
  ultimately show ?case using Cons.prems(2) by simp
qed

lemma getAllFiles_distinct:
  "wellFormed fs \<Longrightarrow> distinct (map path (getAllFiles dir fs))"
proof (induction dir fs rule: getAllFiles.induct)
  case (1 dir fs)
  show ?case
  proof (cases "readdir dir fs")
    case None
    then show ?thesis by (simp add: getAllFiles.simps [of dir fs])
  next
    case (Some entries)
    let ?g = "\<lambda>e. if isDirectory e then getAllFiles (join dir (d_name e)) fs
                   else if isFile e then statEntry (join dir (d_name e)) fs else []"
    let ?h = "\<lambda>e. map path (?g e)"
    have d: "distinct (map d_name entries)"
      using "1.prems" Some by (rule readdir_distinct)
    have a: "distinct (?h e)" if "e \<in> set entries" for e
      using "1.IH" [OF Some that _ "1.prems"] by (auto simp: statEntry_def split: option.splits)
    have b: "x ! length dir = d_name e" if "e \<in> set entries" "x \<in> set (?h e)" for e x
    proof (cases "isDirectory e")
      case True
      with that obtain f where "f \<in> set (getAllFiles (join dir (d_name e)) fs)" "x = path f"
        by auto
      then show ?thesis using getAllFiles_path [of f "join dir (d_name e)" fs]
        by (auto simp: join_def nth_append)
    next
      case False
      with that show ?thesis
        by (auto simp: statEntry_def join_def nth_append split: if_splits option.splits)
    qed
    have "distinct (concat (map ?h entries))"
    proof (rule distinct_concat_keys [where k = d_name and key = "\<lambda>x. x ! length dir"])
      show "distinct (map d_name entries)" by (rule d)
    next
      fix e assume "e \<in> set entries"
      then show "distinct (?h e)" by (rule a)
    next
      fix e x assume "e \<in> set entries" "x \<in> set (?h e)"
      then show "x ! length dir = d_name e" by (rule b)
    qed
    then show ?thesis using Some by (simp add: getAllFiles.simps [of dir fs] map_concat comp_def)
  qed
qed

section \<open>The two deletion loops in closed form\<close>

lemma fileAt_fold_removeAt:
  "distinct qs \<Longrightarrow> \<forall>q\<in>set qs. q \<noteq> [] \<and> fileAt s q \<noteq> None \<Longrightarrow>
   fileAt (fold removeAt qs s) p = (if p \<in> set qs then None else fileAt s p)"
proof (induction qs arbitrary: s)
  case Nil
  then show ?case by simp
next
  case (Cons q qs)
  have "\<forall>q'\<in>set qs. q' \<noteq> [] \<and> fileAt (removeAt q s) q' \<noteq> None"
    using Cons.prems by (auto simp: fileAt_removeAt)
  then have "fileAt (fold removeAt qs (removeAt q s)) p =
      (if p \<in> set qs then None else fileAt (removeAt q s) p)"
    using Cons.IH Cons.prems(1) by simp
  then show ?case using Cons.prems by (auto simp: fileAt_removeAt)
qed

lemma getAllFiles_fold_removeAt:
  "distinct qs \<Longrightarrow> \<forall>q\<in>set qs. q \<noteq> [] \<and> fileAt s q \<noteq> None \<Longrightarrow>
   getAllFiles dir (fold removeAt qs s) = filter (\<lambda>f. path f \<notin> set qs) (getAllFiles dir s)"
proof (induction qs arbitrary: s)
  case Nil
  then show ?case by simp
next
  case (Cons q qs)
  have "\<forall>q'\<in>set qs. q' \<noteq> [] \<and> fileAt (removeAt q s) q' \<noteq> None"
    using Cons.prems by (auto simp: fileAt_removeAt)
  then have "getAllFiles dir (fold removeAt qs (removeAt q s)) =
      filter (\<lambda>f. path f \<notin> set qs) (getAllFiles dir (removeAt q s))"
    using Cons.IH Cons.prems(1) by simp
  also have "getAllFiles dir (removeAt q s) = filter (\<lambda>f. path f \<noteq> q) (getAllFiles dir s)"
    using Cons.prems by (simp add: getAllFiles_removeAt)
  finally show ?case by (simp add: conj_commute)
qed

lemma safeDelete_deletable:
  "safeDelete p s = (if deletable s p then (True, removeAt p s) else (False, s))"
  by (simp add: safeDelete_def unlink_deletable)

lemma deleteExpired_closed:
  assumes "distinct (map path xs)"
    and "\<forall>f\<in>set xs. path f \<noteq> [] \<and> fileAt s (path f) \<noteq> None \<and> deletable s (path f) = ok (path f)"
  shows "deleteExpired cfg now xs (res, rem, s) =
     (res\<lparr>filesDeleted := filesDeleted res
             + length (filter (\<lambda>f. now - modTime f > ttlMs cfg \<and> ok (path f)) xs),
          bytesFreed := bytesFreed res
             + sum_list (map fsize (filter (\<lambda>f. now - modTime f > ttlMs cfg \<and> ok (path f)) xs)),
          expiredFiles := expiredFiles res
             @ map path (filter (\<lambda>f. now - modTime f > ttlMs cfg \<and> ok (path f)) xs),
          errors := errors res
             @ map (\<lambda>f. ''Failed to delete expired file: '' @ pathString (path f))
                 (filter (\<lambda>f. now - modTime f > ttlMs cfg \<and> \<not> ok (path f)) xs)\<rparr>,
      rem @ filter (\<lambda>f. \<not> now - modTime f > ttlMs cfg) xs,
      fold removeAt (map path (filter (\<lambda>f. now - modTime f > ttlMs cfg \<and> ok (path f)) xs)) s)"
  using assms
proof (induction xs arbitrary: res rem s)
  case Nil
  then show ?case by simp
next
  case (Cons x xs)
  have d: "distinct (map path xs)" and nx: "\<forall>f\<in>set xs. path f \<noteq> path x"
    using Cons.prems(1) by (auto simp: image_iff)
  have pre: "\<forall>f\<in>set xs. path f \<noteq> [] \<and> fileAt s (path f) \<noteq> None
      \<and> deletable s (path f) = ok (path f)"
    using Cons.prems(2) by simp
  have x: "path x \<noteq> []" "fileAt s (path x) \<noteq> None" "deletable s (path x) = ok (path x)"
    using Cons.prems(2) by simp_all
  show ?case
  proof (cases "now - modTime x > ttlMs cfg")
    case False
    then show ?thesis using Cons.IH [OF d pre] by simp
  next
    case True
    show ?thesis
    proof (cases "ok (path x)")
      case ok: True
      have pre': "\<forall>f\<in>set xs. path f \<noteq> [] \<and> fileAt (removeAt (path x) s) (path f) \<noteq> None
          \<and> deletable (removeAt (path x) s) (path f) = ok (path f)"
        using pre nx x by (simp add: fileAt_removeAt deletable_removeAt)
      show ?thesis
        using True ok x(3) Cons.IH [OF d pre'] by (simp add: safeDelete_deletable)
    next
      case False
      then show ?thesis
        using True x(3) Cons.IH [OF d pre] by (simp add: safeDelete_deletable)
    qed
  qed
qed

lemma deleteLru_closed:
  assumes "distinct (map path xs)"
    and "\<forall>f\<in>set xs. path f \<noteq> [] \<and> fileAt s (path f) \<noteq> None \<and> deletable s (path f) = ok (path f)"
  shows "deleteLru cfg xs (res, cs, s) =
     (res\<lparr>filesDeleted := filesDeleted res
             + length (filter (\<lambda>f. ok (path f)) (lruAttempts (maxSizeBytes cfg) ok cs xs)),
          bytesFreed := bytesFreed res
             + sum_list (map fsize (filter (\<lambda>f. ok (path f)) (lruAttempts (maxSizeBytes cfg) ok cs xs))),
          lruFiles := lruFiles res
             @ map path (filter (\<lambda>f. ok (path f)) (lruAttempts (maxSizeBytes cfg) ok cs xs)),
          errors := errors res
             @ map (\<lambda>f. ''Failed to delete LRU file: '' @ pathString (path f))
                 (filter (\<lambda>f. \<not> ok (path f)) (lruAttempts (maxSizeBytes cfg) ok cs xs))\<rparr>,
      cs - int (sum_list (map fsize
             (filter (\<lambda>f. ok (path f)) (lruAttempts (maxSizeBytes cfg) ok cs xs)))),
      fold removeAt
        (map path (filter (\<lambda>f. ok (path f)) (lruAttempts (maxSizeBytes cfg) ok cs xs))) s)"
  using assms
proof (induction xs arbitrary: res cs s)
  case Nil
  then show ?case by simp
next
  case (Cons x xs)
  have d: "distinct (map path xs)" and nx: "\<forall>f\<in>set xs. path f \<noteq> path x"
    using Cons.prems(1) by (auto simp: image_iff)
  have pre: "\<forall>f\<in>set xs. path f \<noteq> [] \<and> fileAt s (path f) \<noteq> None
      \<and> deletable s (path f) = ok (path f)"
    using Cons.prems(2) by simp
  have x: "path x \<noteq> []" "fileAt s (path x) \<noteq> None" "deletable s (path x) = ok (path x)"
    using Cons.prems(2) by simp_all
  show ?case
  proof (cases "cs \<le> maxSizeBytes cfg")
    case True
    then show ?thesis by simp
  next
    case False
    show ?thesis
    proof (cases "ok (path x)")
      case ok: True
      have pre': "\<forall>f\<in>set xs. path f \<noteq> [] \<and> fileAt (removeAt (path x) s) (path f) \<noteq> None
          \<and> deletable (removeAt (path x) s) (path f) = ok (path f)"
        using pre nx x by (simp add: fileAt_removeAt deletable_removeAt)
      show ?thesis
        using False ok x(3) Cons.IH [OF d pre'] by (simp add: safeDelete_deletable)
    next
      case nok: False
      then show ?thesis
        using False x(3) Cons.IH [OF d pre] by (simp add: safeDelete_deletable)
    qed
  qed
qed

lemma cleanEmptyDirs_root: "cleanEmptyDirs cacheDir cacheDir fs = fs"
  by (simp add: cleanEmptyDirs.simps)

lemma distinct_map_sort_key: "distinct (map g (sort_key k xs)) = distinct (map g xs)"
proof -
  have "mset (map g (sort_key k xs)) = mset (map g xs)" by simp
  then show ?thesis by (rule mset_eq_imp_distinct_iff)
qed

lemma same_path_same_file:
  "distinct (map path xs) \<Longrightarrow> f \<in> set xs \<Longrightarrow> g \<in> set xs \<Longrightarrow> path f = path g \<Longrightarrow> f = g"
  by (meson distinct_map inj_onD)

lemma deleteExpired_inventory:
  assumes "distinct (map path (getAllFiles (cacheDirectory cfg) fs))"
  shows "deleteExpired cfg now (getAllFiles (cacheDirectory cfg) fs) (emptyResult, [], fs) =
     (\<lparr>filesDeleted = length (expiredDeleted cfg now fs),
       bytesFreed = sum_list (map fsize (expiredDeleted cfg now fs)),
       expiredFiles = map path (expiredDeleted cfg now fs),
       lruFiles = [],
       errors = map (\<lambda>f. ''Failed to delete expired file: '' @ pathString (path f))
                  (expiredFailed cfg now fs)\<rparr>,
      survivors cfg now fs,
      fold removeAt (map path (expiredDeleted cfg now fs)) fs)"
proof -
  have pre: "\<forall>f\<in>set (getAllFiles (cacheDirectory cfg) fs).
      path f \<noteq> [] \<and> fileAt fs (path f) \<noteq> None \<and> deletable fs (path f) = deletable fs (path f)"
    by (simp add: getAllFiles_fileAt getAllFiles_path_nonempty)
  show ?thesis
    unfolding deleteExpired_closed [OF assms pre]
    by (simp add: emptyResult_def expiredDeleted_def expiredFailed_def survivors_def isExpired_def)
qed

lemma survivors_after_expiry:
  assumes dist: "distinct (map path (getAllFiles (cacheDirectory cfg) fs))"
    and f: "f \<in> set (survivors cfg now fs)"
  shows "path f \<noteq> []"
    and "fileAt (fold removeAt (map path (expiredDeleted cfg now fs)) fs) (path f) = fileAt fs (path f)"
    and "fileAt fs (path f) \<noteq> None"
proof -
  let ?files = "getAllFiles (cacheDirectory cfg) fs"
  from f have fin: "f \<in> set ?files" and ne: "\<not> isExpired cfg now f"
    by (simp_all add: survivors_def)
  show "path f \<noteq> []" using fin by (rule getAllFiles_path_nonempty)
  show "fileAt fs (path f) \<noteq> None" using fin by (rule getAllFiles_fileAt)
  have "path f \<notin> set (map path (expiredDeleted cfg now fs))"
  proof
    assume "path f \<in> set (map path (expiredDeleted cfg now fs))"
    then obtain g where g: "g \<in> set (expiredDeleted cfg now fs)" and "path g = path f" by auto
    then have "g \<in> set ?files" "isExpired cfg now g" by (simp_all add: expiredDeleted_def)
    with \<open>path g = path f\<close> fin dist have "g = f" by (metis same_path_same_file)
    with ne \<open>isExpired cfg now g\<close> show False by simp
  qed
  moreover have "distinct (map path (expiredDeleted cfg now fs))"
    unfolding expiredDeleted_def using dist by (rule distinct_map_filter)
  moreover have "\<forall>q\<in>set (map path (expiredDeleted cfg now fs)). q \<noteq> [] \<and> fileAt fs q \<noteq> None"
  proof
    fix q assume "q \<in> set (map path (expiredDeleted cfg now fs))"
    then obtain g where "g \<in> set ?files" "q = path g" by (auto simp: expiredDeleted_def)
    then show "q \<noteq> [] \<and> fileAt fs q \<noteq> None"
      using getAllFiles_fileAt [of g] getAllFiles_path_nonempty [of g] by simp
  qed
  ultimately show "fileAt (fold removeAt (map path (expiredDeleted cfg now fs)) fs) (path f)
      = fileAt fs (path f)"
    by (simp add: fileAt_fold_removeAt)
qed

lemma deleteLru_inventory:
  assumes dist: "distinct (map path (getAllFiles (cacheDirectory cfg) fs))"
  shows "deleteLru cfg (sort_key accessTime (survivors cfg now fs))
           (res, cs, fold removeAt (map path (expiredDeleted cfg now fs)) fs) =
     (let A = lruAttempts (maxSizeBytes cfg) (deletable fs) cs
                (sort_key accessTime (survivors cfg now fs));
          D = filter (\<lambda>f. deletable fs (path f)) A
      in (res\<lparr>filesDeleted := filesDeleted res + length D,
              bytesFreed := bytesFreed res + sum_list (map fsize D),
              lruFiles := lruFiles res @ map path D,
              errors := errors res
                 @ map (\<lambda>f. ''Failed to delete LRU file: '' @ pathString (path f))
                     (filter (\<lambda>f. \<not> deletable fs (path f)) A)\<rparr>,
          cs - int (sum_list (map fsize D)),
          fold removeAt (map path D) (fold removeAt (map path (expiredDeleted cfg now fs)) fs)))"
proof -
  let ?fs1 = "fold removeAt (map path (expiredDeleted cfg now fs)) fs"
  have d: "distinct (map path (sort_key accessTime (survivors cfg now fs)))"
    unfolding distinct_map_sort_key survivors_def using dist by (rule distinct_map_filter)
  have pre: "\<forall>f\<in>set (sort_key accessTime (survivors cfg now fs)).
      path f \<noteq> [] \<and> fileAt ?fs1 (path f) \<noteq> None \<and> deletable ?fs1 (path f) = deletable fs (path f)"
    using survivors_after_expiry [OF dist] by (simp add: deletable_fileAt)
  show ?thesis unfolding deleteLru_closed [OF d pre] by (simp add: Let_def)
qed

lemma runCleanup_closed:
  assumes dist: "distinct (map path (getAllFiles (cacheDirectory cfg) fs))"
  shows "runCleanup cfg now fs =
    (\<lparr>filesDeleted = length (expiredDeleted cfg now fs) + length (lruDeleted cfg now fs),
      bytesFreed = sum_list (map fsize (expiredDeleted cfg now fs))
                   + sum_list (map fsize (lruDeleted cfg now fs)),
      expiredFiles = map path (expiredDeleted cfg now fs),
      lruFiles = map path (lruDeleted cfg now fs),
      errors = map (\<lambda>f. ''Failed to delete expired file: '' @ pathString (path f))
                 (expiredFailed cfg now fs)
               @ map (\<lambda>f. ''Failed to delete LRU file: '' @ pathString (path f))
                   (lruFailed cfg now fs)\<rparr>,
     fold removeAt (map path (expiredDeleted cfg now fs @ lruDeleted cfg now fs)) fs)"
proof (cases "getAllFiles (cacheDirectory cfg) fs = []")
  case True
  then have "survivors cfg now fs = []" "expiredDeleted cfg now fs = []"
    "expiredFailed cfg now fs = []"
    by (simp_all add: survivors_def expiredDeleted_def expiredFailed_def)
  moreover from this have "lruTried cfg now fs = []" by (simp add: lruTried_def)
  ultimately show ?thesis using True
    by (simp add: runCleanup_def emptyResult_def lruDeleted_def lruFailed_def)
next
  case False
  show ?thesis
  proof (cases "totalSize (survivors cfg now fs) > maxSizeBytes cfg")
    case True
    then show ?thesis using False
      by (simp add: runCleanup_def deleteExpired_inventory [OF dist] deleteLru_inventory [OF dist]
            cleanEmptyDirs_root lruDeleted_def lruFailed_def lruTried_def Let_def)
  next
    case no: False
    then show ?thesis using False
      by (simp add: runCleanup_def deleteExpired_inventory [OF dist]
            cleanEmptyDirs_root lruDeleted_def lruFailed_def lruTried_def Let_def)
  qed
qed

section \<open>The run in closed form\<close>

lemma lruAttempts_prefix: "prefix (lruAttempts limit ok cs xs) xs"
  by (induction xs arbitrary: cs) auto

lemma lruTried_prefix: "prefix (lruTried cfg now fs) (sort_key accessTime (survivors cfg now fs))"
  by (simp add: lruTried_def lruAttempts_prefix)

lemma lruTried_survivors: "set (lruTried cfg now fs) \<subseteq> set (survivors cfg now fs)"
proof -
  have "set (lruTried cfg now fs) \<subseteq> set (sort_key accessTime (survivors cfg now fs))"
    using lruTried_prefix by (rule set_mono_prefix)
  then show ?thesis by simp
qed

lemma lruDeleted_survivors: "set (lruDeleted cfg now fs) \<subseteq> set (survivors cfg now fs)"
  using lruTried_survivors [of cfg now fs] by (auto simp: lruDeleted_def)

lemma lruTried_distinct:
  assumes "distinct (map path (getAllFiles (cacheDirectory cfg) fs))"
  shows "distinct (map path (lruTried cfg now fs))"
proof -
  have "distinct (map path (sort_key accessTime (survivors cfg now fs)))"
    unfolding distinct_map_sort_key survivors_def using assms by (rule distinct_map_filter)
  moreover obtain zs where "sort_key accessTime (survivors cfg now fs) = lruTried cfg now fs @ zs"
    using lruTried_prefix [of cfg now fs] by (auto simp: prefix_def)
  ultimately show ?thesis by simp
qed

lemma deleted_distinct:
  assumes dist: "distinct (map path (getAllFiles (cacheDirectory cfg) fs))"
  shows "distinct (map path (expiredDeleted cfg now fs @ lruDeleted cfg now fs))"
proof -
  let ?files = "getAllFiles (cacheDirectory cfg) fs"
  have 1: "distinct (map path (expiredDeleted cfg now fs))"
    unfolding expiredDeleted_def using dist by (rule distinct_map_filter)
  have 2: "distinct (map path (lruDeleted cfg now fs))"
    unfolding lruDeleted_def using lruTried_distinct [OF dist] by (rule distinct_map_filter)
  have 3: "path g \<noteq> path h"
    if g: "g \<in> set (expiredDeleted cfg now fs)" and h: "h \<in> set (lruDeleted cfg now fs)" for g h
  proof
    assume eq: "path g = path h"
    from g have g': "g \<in> set ?files" "isExpired cfg now g" by (simp_all add: expiredDeleted_def)
    from h lruDeleted_survivors have "h \<in> set (survivors cfg now fs)" by blast
    then have h': "h \<in> set ?files" "\<not> isExpired cfg now h" by (simp_all add: survivors_def)
    from dist g'(1) h'(1) eq have "g = h" by (rule same_path_same_file)
    with g'(2) h'(2) show False by simp
  qed
  from 1 2 3 show ?thesis by auto
qed

lemma deleted_are_files:
  "q \<in> set (map path (expiredDeleted cfg now fs @ lruDeleted cfg now fs)) \<Longrightarrow>
   q \<noteq> [] \<and> fileAt fs q \<noteq> None"
proof -
  assume "q \<in> set (map path (expiredDeleted cfg now fs @ lruDeleted cfg now fs))"
  then obtain g where "g \<in> set (expiredDeleted cfg now fs) \<or> g \<in> set (lruDeleted cfg now fs)"
    and q: "q = path g" by auto
  then have "g \<in> set (getAllFiles (cacheDirectory cfg) fs)"
    using lruDeleted_survivors [of cfg now fs] by (auto simp: expiredDeleted_def survivors_def)
  then show ?thesis
    using getAllFiles_fileAt [of g] getAllFiles_path_nonempty [of g] q by simp
qed

lemma fileAt_after_expiry:
  assumes dist: "distinct (map path (getAllFiles (cacheDirectory cfg) fs))"
  shows "fileAt (fold removeAt (map path (expiredDeleted cfg now fs)) fs) p =
     (if p \<in> path ` set (expiredDeleted cfg now fs) then None else fileAt fs p)"
proof -
  have "distinct (map path (expiredDeleted cfg now fs))"
    unfolding expiredDeleted_def using dist by (rule distinct_map_filter)
  moreover have "\<forall>q\<in>set (map path (expiredDeleted cfg now fs)). q \<noteq> [] \<and> fileAt fs q \<noteq> None"
    using deleted_are_files [of _ cfg now fs] by simp
  ultimately show ?thesis by (simp add: fileAt_fold_removeAt)
qed

lemma totalSize_sum: "totalSize xs = int (sum_list (map fsize xs))"
proof -
  have "foldl (\<lambda>sum f. sum + int (fsize f)) a xs = a + int (sum_list (map fsize xs))" for a
    by (induction xs arbitrary: a) auto
  then show ?thesis by (simp add: totalSize_def)
qed

lemma survivors_eq:
  "survivors cfg now fs =
     filter (\<lambda>f. now - modTime f \<le> ttlMs cfg) (getAllFiles (cacheDirectory cfg) fs)"
  by (simp add: survivors_def isExpired_def not_less)

lemma lruAttempts_reaches:
  "cs - totalSize (filter (\<lambda>g. ok (path g)) ys) > limit \<Longrightarrow>
   f \<in> set (lruAttempts limit ok cs (ys @ f # zs))"
proof (induction ys arbitrary: cs)
  case Nil
  then show ?case by (simp add: totalSize_sum)
next
  case (Cons y ys)
  have "0 \<le> totalSize (filter (\<lambda>g. ok (path g)) (y # ys))" by (simp add: totalSize_sum)
  with Cons.prems have cs: "cs > limit" by linarith
  have "(if ok (path y) then cs - int (fsize y) else cs)
          - totalSize (filter (\<lambda>g. ok (path g)) ys) > limit"
    using Cons.prems by (simp add: totalSize_sum split: if_splits)
  then have "f \<in> set (lruAttempts limit ok (if ok (path y) then cs - int (fsize y) else cs)
                        (ys @ f # zs))"
    by (rule Cons.IH)
  with cs show ?case by simp
qed

lemma lruAttempts_end:
  "lruAttempts limit ok cs xs = xs
   \<or> cs - totalSize (filter (\<lambda>f. ok (path f)) (lruAttempts limit ok cs xs)) \<le> limit"
proof (induction xs arbitrary: cs)
  case Nil
  then show ?case by simp
next
  case (Cons x xs)
  show ?case
  proof (cases "cs \<le> limit")
    case True
    then show ?thesis by (simp add: totalSize_sum)
  next
    case False
    let ?cs = "if ok (path x) then cs - int (fsize x) else cs"
    from Cons.IH [of ?cs] show ?thesis
      using False by (auto simp: totalSize_sum)
  qed
qed

lemma sum_list_filter_split:
  "sum_list (map g (filter P xs)) + sum_list (map g (filter (\<lambda>x. \<not> P x) xs))
     = (sum_list (map g xs) :: nat)"
  by (induction xs) auto

lemma sum_list_distinct_set:
  assumes "distinct xs" "distinct ys" "set xs = set ys"
  shows "sum_list (map g xs) = (sum_list (map g ys) :: nat)"
proof -
  from assms have "mset xs = mset ys" by (simp add: set_eq_iff_mset_eq_distinct)
  then have "mset (map g xs) = mset (map g ys)" by simp
  then show ?thesis by (metis sum_mset_sum_list)
qed

lemma totalSize_remove:
  assumes S: "distinct (map path S)" and D: "distinct (map path D)" and sub: "set D \<subseteq> set S"
  shows "totalSize (filter (\<lambda>f. path f \<notin> path ` set D) S) = totalSize S - totalSize D"
proof -
  have eq: "filter (\<lambda>f. path f \<notin> path ` set D) S = filter (\<lambda>f. f \<notin> set D) S"
  proof (rule filter_cong [OF refl])
    fix f assume f: "f \<in> set S"
    show "(path f \<notin> path ` set D) = (f \<notin> set D)"
    proof
      assume "path f \<notin> path ` set D"
      then show "f \<notin> set D" by auto
    next
      assume n: "f \<notin> set D"
      show "path f \<notin> path ` set D"
      proof
        assume "path f \<in> path ` set D"
        then obtain g where g: "g \<in> set D" "path f = path g" by auto
        with sub have "g \<in> set S" by auto
        with S f g(2) have "f = g" by (metis same_path_same_file)
        with g(1) n show False by simp
      qed
    qed
  qed
  have dS: "distinct S" and dD: "distinct D" using S D by (simp_all add: distinct_map)
  have "set (filter (\<lambda>f. f \<in> set D) S) = set D" using sub by auto
  then have "sum_list (map fsize (filter (\<lambda>f. f \<in> set D) S)) = sum_list (map fsize D)"
    using dS dD by (intro sum_list_distinct_set) auto
  moreover have "sum_list (map fsize (filter (\<lambda>f. f \<in> set D) S))
      + sum_list (map fsize (filter (\<lambda>f. \<not> f \<in> set D) S)) = sum_list (map fsize S)"
    by (rule sum_list_filter_split)
  ultimately show ?thesis unfolding eq totalSize_sum by simp
qed

lemma runCleanup_fs:
  assumes "distinct (map path (getAllFiles (cacheDirectory cfg) fs))"
  shows "snd (runCleanup cfg now fs) =
     fold removeAt (map path (expiredDeleted cfg now fs @ lruDeleted cfg now fs)) fs"
  by (simp add: runCleanup_closed [OF assms])

lemma fileAt_after_run:
  assumes dist: "distinct (map path (getAllFiles (cacheDirectory cfg) fs))"
  shows "fileAt (snd (runCleanup cfg now fs)) p =
     (if p \<in> path ` set (expiredDeleted cfg now fs @ lruDeleted cfg now fs) then None
      else fileAt fs p)"
proof -
  have a: "\<forall>q\<in>set (map path (expiredDeleted cfg now fs @ lruDeleted cfg now fs)).
      q \<noteq> [] \<and> fileAt fs q \<noteq> None"
    using deleted_are_files [of _ cfg now fs] by blast
  have "fileAt (snd (runCleanup cfg now fs)) p =
     (if p \<in> set (map path (expiredDeleted cfg now fs @ lruDeleted cfg now fs)) then None
      else fileAt fs p)"
    unfolding runCleanup_fs [OF dist]
    using deleted_distinct [OF dist] a by (rule fileAt_fold_removeAt)
  then show ?thesis by (simp only: set_map)
qed

lemma inventory_after_run:
  assumes dist: "distinct (map path (getAllFiles (cacheDirectory cfg) fs))"
  shows "getAllFiles dir (snd (runCleanup cfg now fs)) =
     filter (\<lambda>f. path f \<notin> path ` set (expiredDeleted cfg now fs @ lruDeleted cfg now fs))
       (getAllFiles dir fs)"
proof -
  have a: "\<forall>q\<in>set (map path (expiredDeleted cfg now fs @ lruDeleted cfg now fs)).
      q \<noteq> [] \<and> fileAt fs q \<noteq> None"
    using deleted_are_files [of _ cfg now fs] by blast
  have "getAllFiles dir (snd (runCleanup cfg now fs)) =
     filter (\<lambda>f. path f \<notin> set (map path (expiredDeleted cfg now fs @ lruDeleted cfg now fs)))
       (getAllFiles dir fs)"
    unfolding runCleanup_fs [OF dist]
    using deleted_distinct [OF dist] a by (rule getAllFiles_fold_removeAt)
  then show ?thesis by (simp only: set_map)
qed

lemma kept_iff:
  assumes dist: "distinct (map path (getAllFiles (cacheDirectory cfg) fs))"
    and f: "f \<in> set (getAllFiles (cacheDirectory cfg) fs)"
  shows "path f \<in> path ` set (expiredDeleted cfg now fs @ lruDeleted cfg now fs)
     \<longleftrightarrow> f \<in> set (expiredDeleted cfg now fs) \<or> f \<in> set (lruDeleted cfg now fs)"
proof
  assume "path f \<in> path ` set (expiredDeleted cfg now fs @ lruDeleted cfg now fs)"
  then obtain g where g: "g \<in> set (expiredDeleted cfg now fs) \<or> g \<in> set (lruDeleted cfg now fs)"
    and eq: "path f = path g" by auto
  from g have "g \<in> set (getAllFiles (cacheDirectory cfg) fs)"
    using lruDeleted_survivors [of cfg now fs] by (auto simp: expiredDeleted_def survivors_def)
  with dist f eq have "f = g" by (metis same_path_same_file)
  with g show "f \<in> set (expiredDeleted cfg now fs) \<or> f \<in> set (lruDeleted cfg now fs)" by simp
next
  assume "f \<in> set (expiredDeleted cfg now fs) \<or> f \<in> set (lruDeleted cfg now fs)"
  then show "path f \<in> path ` set (expiredDeleted cfg now fs @ lruDeleted cfg now fs)" by auto
qed

lemma survivors_after_run:
  assumes dist: "distinct (map path (getAllFiles (cacheDirectory cfg) fs))"
  shows "survivors cfg now (snd (runCleanup cfg now fs)) =
     filter (\<lambda>f. path f \<notin> path ` set (lruDeleted cfg now fs)) (survivors cfg now fs)"
proof -
  let ?files = "getAllFiles (cacheDirectory cfg) fs"
  have "survivors cfg now (snd (runCleanup cfg now fs)) =
      filter (\<lambda>f. \<not> isExpired cfg now f \<and>
          path f \<notin> path ` set (expiredDeleted cfg now fs @ lruDeleted cfg now fs)) ?files"
    unfolding survivors_def inventory_after_run [OF dist] filter_filter
    by (rule filter_cong [OF refl]) blast
  also have "\<dots> = filter (\<lambda>f. \<not> isExpired cfg now f \<and> f \<notin> set (lruDeleted cfg now fs)) ?files"
  proof (rule filter_cong [OF refl])
    fix f assume f: "f \<in> set ?files"
    show "(\<not> isExpired cfg now f \<and>
          path f \<notin> path ` set (expiredDeleted cfg now fs @ lruDeleted cfg now fs))
        = (\<not> isExpired cfg now f \<and> f \<notin> set (lruDeleted cfg now fs))"
      unfolding kept_iff [OF dist f] by (auto simp: expiredDeleted_def)
  qed
  also have "\<dots> = filter (\<lambda>f. f \<notin> set (lruDeleted cfg now fs)) (survivors cfg now fs)"
    by (simp add: survivors_def conj_commute)
  also have "\<dots> = filter (\<lambda>f. path f \<notin> path ` set (lruDeleted cfg now fs)) (survivors cfg now fs)"
  proof (rule filter_cong [OF refl])
    fix f assume "f \<in> set (survivors cfg now fs)"
    then have f: "f \<in> set ?files" "\<not> isExpired cfg now f" by (simp_all add: survivors_def)
    have "path f \<in> path ` set (lruDeleted cfg now fs) \<longleftrightarrow> f \<in> set (lruDeleted cfg now fs)"
    proof
      assume "path f \<in> path ` set (lruDeleted cfg now fs)"
      then have "path f \<in> path ` set (expiredDeleted cfg now fs @ lruDeleted cfg now fs)" by auto
      with kept_iff [OF dist f(1)] f(2) show "f \<in> set (lruDeleted cfg now fs)"
        by (auto simp: expiredDeleted_def)
    qed auto
    then show "(f \<notin> set (lruDeleted cfg now fs)) = (path f \<notin> path ` set (lruDeleted cfg now fs))"
      by simp
  qed
  finally show ?thesis .
qed

lemma run_end:
  assumes dist: "distinct (map path (getAllFiles (cacheDirectory cfg) fs))"
  shows "totalSize (survivors cfg now (snd (runCleanup cfg now fs))) \<le> maxSizeBytes cfg
     \<or> set (lruTried cfg now fs) = set (survivors cfg now fs)"
proof (cases "totalSize (survivors cfg now fs) > maxSizeBytes cfg")
  case False
  then have "lruDeleted cfg now fs = []" by (simp add: lruDeleted_def lruTried_def)
  with False show ?thesis by (simp add: survivors_after_run [OF dist])
next
  case True
  let ?S = "survivors cfg now fs"
  have A: "lruTried cfg now fs =
      lruAttempts (maxSizeBytes cfg) (deletable fs) (totalSize ?S) (sort_key accessTime ?S)"
    using True by (simp add: lruTried_def)
  from lruAttempts_end [of "maxSizeBytes cfg" "deletable fs" "totalSize ?S" "sort_key accessTime ?S"]
  show ?thesis
  proof
    assume "lruAttempts (maxSizeBytes cfg) (deletable fs) (totalSize ?S) (sort_key accessTime ?S)
        = sort_key accessTime ?S"
    with A show ?thesis by simp
  next
    assume "totalSize ?S - totalSize (filter (\<lambda>f. deletable fs (path f))
        (lruAttempts (maxSizeBytes cfg) (deletable fs) (totalSize ?S) (sort_key accessTime ?S)))
        \<le> maxSizeBytes cfg"
    then have le: "totalSize ?S - totalSize (lruDeleted cfg now fs) \<le> maxSizeBytes cfg"
      by (simp add: A lruDeleted_def)
    have "distinct (map path ?S)"
      unfolding survivors_def using dist by (rule distinct_map_filter)
    moreover have "distinct (map path (lruDeleted cfg now fs))"
      unfolding lruDeleted_def using lruTried_distinct [OF dist] by (rule distinct_map_filter)
    ultimately have "totalSize (filter (\<lambda>f. path f \<notin> path ` set (lruDeleted cfg now fs)) ?S)
        = totalSize ?S - totalSize (lruDeleted cfg now fs)"
      using lruDeleted_survivors by (rule totalSize_remove)
    with le show ?thesis by (simp add: survivors_after_run [OF dist])
  qed
qed

lemma after_run_no_errors:
  assumes dist: "distinct (map path (getAllFiles (cacheDirectory cfg) fs))"
    and noerr: "errors (fst (runCleanup cfg now fs)) = []"
  shows "getAllFiles (cacheDirectory cfg) (snd (runCleanup cfg now fs)) =
           filter (\<lambda>f. path f \<notin> path ` set (lruDeleted cfg now fs)) (survivors cfg now fs)"
    and "totalSize (getAllFiles (cacheDirectory cfg) (snd (runCleanup cfg now fs)))
           \<le> maxSizeBytes cfg
         \<or> getAllFiles (cacheDirectory cfg) (snd (runCleanup cfg now fs)) = []"
proof -
  let ?files = "getAllFiles (cacheDirectory cfg) fs"
  let ?fs' = "snd (runCleanup cfg now fs)"
  let ?files' = "getAllFiles (cacheDirectory cfg) ?fs'"
  from noerr have F1: "expiredFailed cfg now fs = []" and F2: "lruFailed cfg now fs = []"
    by (simp_all add: runCleanup_closed [OF dist])
  have inv: "?files' =
      filter (\<lambda>f. path f \<notin> path ` set (expiredDeleted cfg now fs @ lruDeleted cfg now fs)) ?files"
    by (rule inventory_after_run [OF dist])
  have "\<not> isExpired cfg now f" if "f \<in> set ?files'" for f
  proof
    assume e: "isExpired cfg now f"
    from that inv have f: "f \<in> set ?files"
      and k: "path f \<notin> path ` set (expiredDeleted cfg now fs @ lruDeleted cfg now fs)"
      by simp_all
    from F1 f e have "deletable fs (path f)"
      by (auto simp: expiredFailed_def filter_empty_conv)
    with f e have "f \<in> set (expiredDeleted cfg now fs)" by (simp add: expiredDeleted_def)
    with k show False by auto
  qed
  then have "filter (\<lambda>f. \<not> isExpired cfg now f) ?files' = ?files'"
    by (simp add: filter_id_conv)
  then have eq: "?files' = survivors cfg now ?fs'" by (simp add: survivors_def)
  then show 1: "?files' =
      filter (\<lambda>f. path f \<notin> path ` set (lruDeleted cfg now fs)) (survivors cfg now fs)"
    by (simp add: survivors_after_run [OF dist])
  from run_end [OF dist, of now]
  show "totalSize ?files' \<le> maxSizeBytes cfg \<or> ?files' = []"
  proof
    assume "totalSize (survivors cfg now ?fs') \<le> maxSizeBytes cfg"
    with eq show ?thesis by simp
  next
    assume all: "set (lruTried cfg now fs) = set (survivors cfg now fs)"
    from F2 have "lruDeleted cfg now fs = lruTried cfg now fs"
      by (simp add: lruFailed_def lruDeleted_def filter_empty_conv filter_id_conv)
    with all have "set (lruDeleted cfg now fs) = set (survivors cfg now fs)" by simp
    then have "filter (\<lambda>f. path f \<notin> path ` set (lruDeleted cfg now fs)) (survivors cfg now fs) = []"
      by (simp add: filter_empty_conv)
    with 1 show ?thesis by simp
  qed
qed

section \<open>The report of a run\<close>

text \<open>
  Whatever the file system answers, step 1 deletes a subsequence of the expired files and
  step 2 a subsequence of the sorted survivors, and the report counts exactly these.
\<close>

lemma deleteExpired_report:
  "\<exists>ds es s'. subseq ds (filter (\<lambda>f. now - modTime f > ttlMs cfg) xs)
     \<and> deleteExpired cfg now xs (res, rem, s) =
        (res\<lparr>filesDeleted := filesDeleted res + length ds,
             bytesFreed := bytesFreed res + sum_list (map fsize ds),
             expiredFiles := expiredFiles res @ map path ds,
             errors := errors res @ es\<rparr>,
         rem @ filter (\<lambda>f. \<not> now - modTime f > ttlMs cfg) xs, s')"
proof (induction xs arbitrary: res rem s)
  case Nil
  have "subseq [] (filter (\<lambda>f. now - modTime f > ttlMs cfg) [])
     \<and> deleteExpired cfg now [] (res, rem, s) =
        (res\<lparr>filesDeleted := filesDeleted res + length ([]::CachedFile list),
             bytesFreed := bytesFreed res + sum_list (map fsize []),
             expiredFiles := expiredFiles res @ map path [],
             errors := errors res @ []\<rparr>,
         rem @ filter (\<lambda>f. \<not> now - modTime f > ttlMs cfg) [], s)"
    by simp
  then show ?case by blast
next
  case (Cons x xs)
  let ?P = "\<lambda>f. now - modTime f > ttlMs cfg"
  show ?case
  proof (cases "?P x")
    case False
    from Cons.IH [of res "rem @ [x]" s] obtain ds es s' where
      "subseq ds (filter ?P xs)"
      "deleteExpired cfg now xs (res, rem @ [x], s) =
        (res\<lparr>filesDeleted := filesDeleted res + length ds,
             bytesFreed := bytesFreed res + sum_list (map fsize ds),
             expiredFiles := expiredFiles res @ map path ds,
             errors := errors res @ es\<rparr>,
         (rem @ [x]) @ filter (\<lambda>f. \<not> ?P f) xs, s')"
      by blast
    with False have "subseq ds (filter ?P (x # xs))
     \<and> deleteExpired cfg now (x # xs) (res, rem, s) =
        (res\<lparr>filesDeleted := filesDeleted res + length ds,
             bytesFreed := bytesFreed res + sum_list (map fsize ds),
             expiredFiles := expiredFiles res @ map path ds,
             errors := errors res @ es\<rparr>,
         rem @ filter (\<lambda>f. \<not> ?P f) (x # xs), s')"
      by simp
    then show ?thesis by blast
  next
    case True
    show ?thesis
    proof (cases "fst (safeDelete (path x) s)")
      case del: True
      let ?res = "res\<lparr>filesDeleted := filesDeleted res + 1,
                     bytesFreed := bytesFreed res + fsize x,
                     expiredFiles := expiredFiles res @ [path x]\<rparr>"
      from Cons.IH [of ?res rem "snd (safeDelete (path x) s)"] obtain ds es s' where
        "subseq ds (filter ?P xs)"
        "deleteExpired cfg now xs (?res, rem, snd (safeDelete (path x) s)) =
          (?res\<lparr>filesDeleted := filesDeleted ?res + length ds,
               bytesFreed := bytesFreed ?res + sum_list (map fsize ds),
               expiredFiles := expiredFiles ?res @ map path ds,
               errors := errors ?res @ es\<rparr>,
           rem @ filter (\<lambda>f. \<not> ?P f) xs, s')"
        by blast
      with True del have "subseq (x # ds) (filter ?P (x # xs))
       \<and> deleteExpired cfg now (x # xs) (res, rem, s) =
          (res\<lparr>filesDeleted := filesDeleted res + length (x # ds),
               bytesFreed := bytesFreed res + sum_list (map fsize (x # ds)),
               expiredFiles := expiredFiles res @ map path (x # ds),
               errors := errors res @ es\<rparr>,
           rem @ filter (\<lambda>f. \<not> ?P f) (x # xs), s')"
        by (simp add: case_prod_beta list_emb_Cons)
      then show ?thesis by blast
    next
      case nodel: False
      let ?e = "''Failed to delete expired file: '' @ pathString (path x)"
      let ?res = "res\<lparr>errors := errors res @ [?e]\<rparr>"
      from Cons.IH [of ?res rem "snd (safeDelete (path x) s)"] obtain ds es s' where
        "subseq ds (filter ?P xs)"
        "deleteExpired cfg now xs (?res, rem, snd (safeDelete (path x) s)) =
          (?res\<lparr>filesDeleted := filesDeleted ?res + length ds,
               bytesFreed := bytesFreed ?res + sum_list (map fsize ds),
               expiredFiles := expiredFiles ?res @ map path ds,
               errors := errors ?res @ es\<rparr>,
           rem @ filter (\<lambda>f. \<not> ?P f) xs, s')"
        by blast
      with True nodel have "subseq ds (filter ?P (x # xs))
       \<and> deleteExpired cfg now (x # xs) (res, rem, s) =
          (res\<lparr>filesDeleted := filesDeleted res + length ds,
               bytesFreed := bytesFreed res + sum_list (map fsize ds),
               expiredFiles := expiredFiles res @ map path ds,
               errors := errors res @ (?e # es)\<rparr>,
           rem @ filter (\<lambda>f. \<not> ?P f) (x # xs), s')"
        by (simp add: case_prod_beta list_emb_Cons)
      then show ?thesis by blast
    qed
  qed
qed

lemma deleteLru_report:
  "\<exists>ds es cs' s'. subseq ds xs
     \<and> deleteLru cfg xs (res, cs, s) =
        (res\<lparr>filesDeleted := filesDeleted res + length ds,
             bytesFreed := bytesFreed res + sum_list (map fsize ds),
             lruFiles := lruFiles res @ map path ds,
             errors := errors res @ es\<rparr>, cs', s')"
proof (induction xs arbitrary: res cs s)
  case Nil
  have "subseq [] ([]::CachedFile list)
     \<and> deleteLru cfg [] (res, cs, s) =
        (res\<lparr>filesDeleted := filesDeleted res + length ([]::CachedFile list),
             bytesFreed := bytesFreed res + sum_list (map fsize []),
             lruFiles := lruFiles res @ map path [],
             errors := errors res @ []\<rparr>, cs, s)"
    by simp
  then show ?case by blast
next
  case (Cons x xs)
  show ?case
  proof (cases "cs \<le> maxSizeBytes cfg")
    case True
    then have "subseq [] (x # xs)
     \<and> deleteLru cfg (x # xs) (res, cs, s) =
        (res\<lparr>filesDeleted := filesDeleted res + length ([]::CachedFile list),
             bytesFreed := bytesFreed res + sum_list (map fsize []),
             lruFiles := lruFiles res @ map path [],
             errors := errors res @ []\<rparr>, cs, s)"
      by simp
    then show ?thesis by blast
  next
    case False
    show ?thesis
    proof (cases "fst (safeDelete (path x) s)")
      case del: True
      let ?res = "res\<lparr>filesDeleted := filesDeleted res + 1,
                     bytesFreed := bytesFreed res + fsize x,
                     lruFiles := lruFiles res @ [path x]\<rparr>"
      from Cons.IH [of ?res "cs - int (fsize x)" "snd (safeDelete (path x) s)"]
      obtain ds es cs' s' where
        "subseq ds xs"
        "deleteLru cfg xs (?res, cs - int (fsize x), snd (safeDelete (path x) s)) =
          (?res\<lparr>filesDeleted := filesDeleted ?res + length ds,
               bytesFreed := bytesFreed ?res + sum_list (map fsize ds),
               lruFiles := lruFiles ?res @ map path ds,
               errors := errors ?res @ es\<rparr>, cs', s')"
        by blast
      with False del have "subseq (x # ds) (x # xs)
       \<and> deleteLru cfg (x # xs) (res, cs, s) =
          (res\<lparr>filesDeleted := filesDeleted res + length (x # ds),
               bytesFreed := bytesFreed res + sum_list (map fsize (x # ds)),
               lruFiles := lruFiles res @ map path (x # ds),
               errors := errors res @ es\<rparr>, cs', s')"
        by (simp add: case_prod_beta list_emb_Cons)
      then show ?thesis by blast
    next
      case nodel: False
      let ?e = "''Failed to delete LRU file: '' @ pathString (path x)"
      let ?res = "res\<lparr>errors := errors res @ [?e]\<rparr>"
      from Cons.IH [of ?res cs "snd (safeDelete (path x) s)"]
      obtain ds es cs' s' where
        "subseq ds xs"
        "deleteLru cfg xs (?res, cs, snd (safeDelete (path x) s)) =
          (?res\<lparr>filesDeleted := filesDeleted ?res + length ds,
               bytesFreed := bytesFreed ?res + sum_list (map fsize ds),
               lruFiles := lruFiles ?res @ map path ds,
               errors := errors ?res @ es\<rparr>, cs', s')"
        by blast
      with False nodel have "subseq ds (x # xs)
       \<and> deleteLru cfg (x # xs) (res, cs, s) =
          (res\<lparr>filesDeleted := filesDeleted res + length ds,
               bytesFreed := bytesFreed res + sum_list (map fsize ds),
               lruFiles := lruFiles res @ map path ds,
               errors := errors res @ (?e # es)\<rparr>, cs', s')"
        by (simp add: case_prod_beta list_emb_Cons)
      then show ?thesis by blast
    qed
  qed
qed

lemma runCleanup_report:
  "\<exists>ds1 ds2 es.
      subseq ds1 (filter (\<lambda>f. now - modTime f > ttlMs cfg) (getAllFiles (cacheDirectory cfg) fs))
    \<and> subseq ds2 (sort_key accessTime
         (filter (\<lambda>f. \<not> now - modTime f > ttlMs cfg) (getAllFiles (cacheDirectory cfg) fs)))
    \<and> fst (runCleanup cfg now fs) =
        \<lparr>filesDeleted = length ds1 + length ds2,
         bytesFreed = sum_list (map fsize ds1) + sum_list (map fsize ds2),
         expiredFiles = map path ds1, lruFiles = map path ds2, errors = es\<rparr>"
proof (cases "getAllFiles (cacheDirectory cfg) fs = []")
  case True
  then have "subseq [] (filter (\<lambda>f. now - modTime f > ttlMs cfg) (getAllFiles (cacheDirectory cfg) fs))
    \<and> subseq [] (sort_key accessTime
         (filter (\<lambda>f. \<not> now - modTime f > ttlMs cfg) (getAllFiles (cacheDirectory cfg) fs)))
    \<and> fst (runCleanup cfg now fs) =
        \<lparr>filesDeleted = length ([]::CachedFile list) + length ([]::CachedFile list),
         bytesFreed = sum_list (map fsize []) + sum_list (map fsize []),
         expiredFiles = map path [], lruFiles = map path [], errors = []\<rparr>"
    by (simp add: runCleanup_def emptyResult_def)
  then show ?thesis by blast
next
  case False
  let ?files = "getAllFiles (cacheDirectory cfg) fs"
  let ?S = "filter (\<lambda>f. \<not> now - modTime f > ttlMs cfg) ?files"
  from deleteExpired_report [where now = now and cfg = cfg and xs = ?files and res = emptyResult
      and rem = "[]" and s = fs]
  obtain ds1 es1 s1 where d1: "subseq ds1 (filter (\<lambda>f. now - modTime f > ttlMs cfg) ?files)"
    and e: "deleteExpired cfg now ?files (emptyResult, [], fs) =
       (\<lparr>filesDeleted = length ds1, bytesFreed = sum_list (map fsize ds1),
         expiredFiles = map path ds1, lruFiles = [], errors = es1\<rparr>, ?S, s1)"
    by (auto simp: emptyResult_def)
  let ?r1 = "\<lparr>filesDeleted = length ds1, bytesFreed = sum_list (map fsize ds1),
         expiredFiles = map path ds1, lruFiles = [], errors = es1\<rparr>"
  show ?thesis
  proof (cases "totalSize ?S > maxSizeBytes cfg")
    case no: False
    have "subseq [] (sort_key accessTime ?S)
      \<and> fst (runCleanup cfg now fs) =
        \<lparr>filesDeleted = length ds1 + length ([]::CachedFile list),
         bytesFreed = sum_list (map fsize ds1) + sum_list (map fsize []),
         expiredFiles = map path ds1, lruFiles = map path [], errors = es1\<rparr>"
      using False no e by (simp add: runCleanup_def)
    with d1 show ?thesis by blast
  next
    case True
    from deleteLru_report [where xs = "sort_key accessTime ?S" and cfg = cfg and res = ?r1
      and cs = "totalSize ?S" and s = s1]
    obtain ds2 es2 cs' s2 where d2: "subseq ds2 (sort_key accessTime ?S)"
      and l: "deleteLru cfg (sort_key accessTime ?S) (?r1, totalSize ?S, s1) =
         (\<lparr>filesDeleted = length ds1 + length ds2,
           bytesFreed = sum_list (map fsize ds1) + sum_list (map fsize ds2),
           expiredFiles = map path ds1, lruFiles = map path ds2, errors = es1 @ es2\<rparr>, cs', s2)"
      by auto
    have "fst (runCleanup cfg now fs) =
        \<lparr>filesDeleted = length ds1 + length ds2,
         bytesFreed = sum_list (map fsize ds1) + sum_list (map fsize ds2),
         expiredFiles = map path ds1, lruFiles = map path ds2, errors = es1 @ es2\<rparr>"
      using False True e l by (simp add: runCleanup_def)
    with d1 d2 show ?thesis by blast
  qed
qed

lemma subseq_subset: "subseq xs ys \<Longrightarrow> set xs \<subseteq> set ys"
  by (auto simp: subseq_conv_nths dest: in_set_nthsD)

lemma subseq_sorted_map: "subseq xs ys \<Longrightarrow> sorted (map k ys) \<Longrightarrow> sorted (map k xs)"
proof -
  assume "subseq xs ys" and s: "sorted (map k ys)"
  then obtain N where "xs = nths ys N" by (auto simp: subseq_conv_nths)
  then have "map k xs = nths (map k ys) N" by (simp add: nths_map)
  with s show ?thesis by (simp add: sorted_nths)
qed

section \<open>The example runs\<close>

lemma wellFormed_fsLocked: "wellFormed fsLocked"
  by code_simp

lemma runCleanup_fsLocked:
  "runCleanup cfgLocked 48 fsLocked =
     (\<lparr>filesDeleted = 3, bytesFreed = 250, expiredFiles = [[''cache'', ''A'']],
       lruFiles = [[''cache'', ''sub'', ''C''], [''cache'', ''sub'', ''B'']],
       errors = [''Failed to delete expired file: cache/L'',
                 ''Failed to delete LRU file: cache/K'']\<rparr>,
      fsLockedAfter)"
  by code_simp

lemma wellFormed_fsExample: "wellFormed fsExample"
  by code_simp

lemma wellFormed_fsZero: "wellFormed fsZero"
  by code_simp

lemma runCleanup_fsExample:
  "runCleanup cfgExample 48 fsExample =
     (\<lparr>filesDeleted = 1, bytesFreed = 100, expiredFiles = [],
       lruFiles = [[''cache'', ''A'']], errors = []\<rparr>,
      removeAt [''cache'', ''A''] fsExample)"
  by code_simp

lemma runCleanup_fsZero:
  "runCleanup cfgZero 48 fsZero =
     (\<lparr>filesDeleted = 1, bytesFreed = 100, expiredFiles = [],
       lruFiles = [[''cache'', ''A'']], errors = []\<rparr>,
      removeAt [''cache'', ''A''] fsZero)"
  by code_simp

section \<open>Step 1: files past their time to live\<close>

text \<open>
  On a non-empty inventory \<^verbatim>\<open>runCleanup\<close> goes on from the state in which the loop of step 1
  ends: it returns that state, or the one that the loop of step 2 makes of it.
\<close>

lemma runCleanup_after_step1:
  assumes run: "deleteExpired cfg now (getAllFiles (cacheDirectory cfg) fs) (emptyResult, [], fs)
                = (r1, remaining, fs1)"
    and ne: "getAllFiles (cacheDirectory cfg) fs \<noteq> []"
  shows "runCleanup cfg now fs =
     (if totalSize remaining > maxSizeBytes cfg then
        (case deleteLru cfg (sort_key accessTime remaining) (r1, totalSize remaining, fs1) of
           (r, cs, fs2) \<Rightarrow> (r, fs2))
      else (r1, fs1))"
  using ne by (simp add: runCleanup_def run cleanEmptyDirs_root case_prod_beta Let_def)

text \<open>
  Claim C1. In a well-formed file system, take a file \<open>f\<close> of the scanned inventory and the
  state \<open>(r1, remaining, fs1)\<close> in which the loop of step 1 ends. \<^verbatim>\<open>runCleanup\<close> goes on from
  this state (it returns it, or what step 2 makes of it), and the list \<^verbatim>\<open>expiredFiles\<close> of its
  report is the one of \<open>r1\<close>. If the age \<open>now - modTime f\<close> exceeds \<^verbatim>\<open>ttlMs\<close>, the file is not
  among the remaining files, and its deletion is attempted: when \<^verbatim>\<open>unlink\<close> succeeds on it, its
  path is in \<^verbatim>\<open>expiredFiles\<close> and the file is gone, after step 1 and in the file system that
  \<^verbatim>\<open>runCleanup\<close> leaves; otherwise its path is not listed and \<^verbatim>\<open>runCleanup\<close> leaves the file
  in place. If the age is at most \<^verbatim>\<open>ttlMs\<close>, the file is among the remaining files, its path
  is not in \<^verbatim>\<open>expiredFiles\<close>, the file is still there, unchanged, after step 1, and
  \<^verbatim>\<open>runCleanup\<close> leaves it in place unless its path is listed in \<^verbatim>\<open>lruFiles\<close>.
\<close>

theorem ttl_phase:
  assumes wf: "wellFormed fs"
    and f: "f \<in> set (getAllFiles (cacheDirectory cfg) fs)"
    and run: "deleteExpired cfg now (getAllFiles (cacheDirectory cfg) fs) (emptyResult, [], fs)
                = (r1, remaining, fs1)"
  shows "runCleanup cfg now fs =
           (if totalSize remaining > maxSizeBytes cfg then
              (case deleteLru cfg (sort_key accessTime remaining)
                      (r1, totalSize remaining, fs1) of
                 (r, cs, fs2) \<Rightarrow> (r, fs2))
            else (r1, fs1))
     \<and> expiredFiles (fst (runCleanup cfg now fs)) = expiredFiles r1
     \<and> (if now - modTime f > ttlMs cfg then
          f \<notin> set remaining
          \<and> (if deletable fs (path f)
             then path f \<in> set (expiredFiles r1) \<and> fileAt fs1 (path f) = None
                \<and> path f \<in> set (expiredFiles (fst (runCleanup cfg now fs)))
                \<and> fileAt (snd (runCleanup cfg now fs)) (path f) = None
             else path f \<notin> set (expiredFiles r1)
                \<and> path f \<notin> set (expiredFiles (fst (runCleanup cfg now fs)))
                \<and> fileAt (snd (runCleanup cfg now fs)) (path f) = fileAt fs (path f))
        else f \<in> set remaining \<and> path f \<notin> set (expiredFiles r1)
           \<and> fileAt fs1 (path f) = fileAt fs (path f) \<and> fileAt fs (path f) \<noteq> None
           \<and> path f \<notin> set (expiredFiles (fst (runCleanup cfg now fs)))
           \<and> fileAt (snd (runCleanup cfg now fs)) (path f) =
               (if path f \<in> set (lruFiles (fst (runCleanup cfg now fs))) then None
                else fileAt fs (path f)))"
proof -
  let ?files = "getAllFiles (cacheDirectory cfg) fs"
  let ?D1 = "expiredDeleted cfg now fs"
  let ?D2 = "lruDeleted cfg now fs"
  have dist: "distinct (map path ?files)" using wf by (rule getAllFiles_distinct)
  from f have ne: "?files \<noteq> []" by auto
  note tie = runCleanup_after_step1 [OF run ne]
  from run deleteExpired_inventory [OF dist, of now]
  have r1: "expiredFiles r1 = map path ?D1"
    and rem: "remaining = survivors cfg now fs"
    and fs1: "fs1 = fold removeAt (map path ?D1) fs"
    by auto
  have a: "expiredFiles (fst (runCleanup cfg now fs)) = expiredFiles r1"
    by (simp add: runCleanup_closed [OF dist] r1)
  have l: "set (lruFiles (fst (runCleanup cfg now fs))) = path ` set ?D2"
    by (simp add: runCleanup_closed [OF dist])
  have in_del: "path f \<in> path ` set ?D1 \<longleftrightarrow> isExpired cfg now f \<and> deletable fs (path f)"
  proof
    assume "path f \<in> path ` set ?D1"
    then obtain g where g: "g \<in> set ?D1" and eq: "path f = path g" by auto
    from g have "g \<in> set ?files" by (simp add: expiredDeleted_def)
    with dist f eq have "f = g" by (metis same_path_same_file)
    with g show "isExpired cfg now f \<and> deletable fs (path f)" by (simp add: expiredDeleted_def)
  next
    assume "isExpired cfg now f \<and> deletable fs (path f)"
    with f show "path f \<in> path ` set ?D1" by (simp add: expiredDeleted_def)
  qed
  have in_lru: "path f \<in> path ` set ?D2 \<longleftrightarrow> f \<in> set ?D2"
  proof
    assume "path f \<in> path ` set ?D2"
    then obtain g where g: "g \<in> set ?D2" and eq: "path f = path g" by auto
    from g lruDeleted_survivors have "g \<in> set (survivors cfg now fs)" by blast
    then have "g \<in> set ?files" by (simp add: survivors_def)
    with dist f eq have "f = g" by (metis same_path_same_file)
    with g show "f \<in> set ?D2" by simp
  qed auto
  have lru_surv: "f \<in> set ?D2 \<Longrightarrow> \<not> isExpired cfg now f"
    using lruDeleted_survivors [of cfg now fs] by (auto simp: survivors_def)
  have gone: "path f \<in> path ` set (?D1 @ ?D2)
      \<longleftrightarrow> (isExpired cfg now f \<and> deletable fs (path f)) \<or> f \<in> set ?D2"
    using in_del in_lru by auto
  have final: "fileAt (snd (runCleanup cfg now fs)) (path f) =
      (if (isExpired cfg now f \<and> deletable fs (path f)) \<or> f \<in> set ?D2 then None
       else fileAt fs (path f))"
    unfolding fileAt_after_run [OF dist] gone ..
  have isfile: "fileAt fs (path f) \<noteq> None" using f by (rule getAllFiles_fileAt)
  have step1: "if now - modTime f > ttlMs cfg then
          f \<notin> set remaining
          \<and> (if deletable fs (path f)
             then path f \<in> set (expiredFiles r1) \<and> fileAt fs1 (path f) = None
             else path f \<notin> set (expiredFiles r1))
        else f \<in> set remaining \<and> path f \<notin> set (expiredFiles r1)
           \<and> fileAt fs1 (path f) = fileAt fs (path f) \<and> fileAt fs (path f) \<noteq> None"
    using in_del isfile f
    by (simp add: r1 rem fs1 fileAt_after_expiry [OF dist] survivors_def isExpired_def)
  have step3: "if now - modTime f > ttlMs cfg then
          (if deletable fs (path f)
           then fileAt (snd (runCleanup cfg now fs)) (path f) = None
           else fileAt (snd (runCleanup cfg now fs)) (path f) = fileAt fs (path f))
        else fileAt (snd (runCleanup cfg now fs)) (path f) =
               (if path f \<in> set (lruFiles (fst (runCleanup cfg now fs))) then None
                else fileAt fs (path f))"
    using lru_surv by (auto simp: final l in_lru isExpired_def)
  from tie a step1 step3 show ?thesis by (simp split: if_splits)
qed

theorem ttl_phase_witness:
  "wellFormed fsLocked
   \<and> deleteExpired cfgLocked 48 (getAllFiles (cacheDirectory cfgLocked) fsLocked)
        (emptyResult, [], fsLocked) =
       (\<lparr>filesDeleted = 1, bytesFreed = 100, expiredFiles = [[''cache'', ''A'']],
         lruFiles = [], errors = [''Failed to delete expired file: cache/L'']\<rparr>,
        [\<lparr>path = [''cache'', ''K''], fsize = 40, accessTime = 1, modTime = 40\<rparr>,
         \<lparr>path = [''cache'', ''sub'', ''B''], fsize = 100, accessTime = 7, modTime = 47\<rparr>,
         \<lparr>path = [''cache'', ''sub'', ''C''], fsize = 50, accessTime = 3, modTime = 45\<rparr>],
        removeAt [''cache'', ''A''] fsLocked)
   \<and> \<lparr>path = [''cache'', ''A''], fsize = 100, accessTime = 5, modTime = 0\<rparr>
        \<in> set (getAllFiles (cacheDirectory cfgLocked) fsLocked)
   \<and> \<lparr>path = [''cache'', ''L''], fsize = 30, accessTime = 6, modTime = 1\<rparr>
        \<in> set (getAllFiles (cacheDirectory cfgLocked) fsLocked)
   \<and> \<lparr>path = [''cache'', ''K''], fsize = 40, accessTime = 1, modTime = 40\<rparr>
        \<in> set (getAllFiles (cacheDirectory cfgLocked) fsLocked)
   \<and> \<lparr>path = [''cache'', ''sub'', ''B''], fsize = 100, accessTime = 7, modTime = 47\<rparr>
        \<in> set (getAllFiles (cacheDirectory cfgLocked) fsLocked)
   \<and> expiredFiles (fst (runCleanup cfgLocked 48 fsLocked)) = [[''cache'', ''A'']]
   \<and> fileAt (removeAt [''cache'', ''A''] fsLocked) [''cache'', ''A''] = None
   \<and> fileAt (removeAt [''cache'', ''A''] fsLocked) [''cache'', ''sub'', ''B'']
        = fileAt fsLocked [''cache'', ''sub'', ''B'']
   \<and> fileAt fsLocked [''cache'', ''sub'', ''B''] \<noteq> None
   \<and> fileAt (snd (runCleanup cfgLocked 48 fsLocked)) [''cache'', ''A''] = None
   \<and> fileAt (snd (runCleanup cfgLocked 48 fsLocked)) [''cache'', ''L'']
        = fileAt fsLocked [''cache'', ''L'']
   \<and> fileAt (snd (runCleanup cfgLocked 48 fsLocked)) [''cache'', ''K'']
        = fileAt fsLocked [''cache'', ''K'']
   \<and> fileAt (snd (runCleanup cfgLocked 48 fsLocked)) [''cache'', ''sub'', ''B''] = None"
proof -
  let ?A = "\<lparr>path = [''cache'', ''A''], fsize = 100, accessTime = 5, modTime = 0\<rparr>"
  let ?L = "\<lparr>path = [''cache'', ''L''], fsize = 30, accessTime = 6, modTime = 1\<rparr>"
  let ?K = "\<lparr>path = [''cache'', ''K''], fsize = 40, accessTime = 1, modTime = 40\<rparr>"
  let ?B = "\<lparr>path = [''cache'', ''sub'', ''B''], fsize = 100, accessTime = 7, modTime = 47\<rparr>"
  have run: "deleteExpired cfgLocked 48 (getAllFiles (cacheDirectory cfgLocked) fsLocked)
        (emptyResult, [], fsLocked) =
       (\<lparr>filesDeleted = 1, bytesFreed = 100, expiredFiles = [[''cache'', ''A'']],
         lruFiles = [], errors = [''Failed to delete expired file: cache/L'']\<rparr>,
        [\<lparr>path = [''cache'', ''K''], fsize = 40, accessTime = 1, modTime = 40\<rparr>,
         \<lparr>path = [''cache'', ''sub'', ''B''], fsize = 100, accessTime = 7, modTime = 47\<rparr>,
         \<lparr>path = [''cache'', ''sub'', ''C''], fsize = 50, accessTime = 3, modTime = 45\<rparr>],
        removeAt [''cache'', ''A''] fsLocked)"
    by code_simp
  have a: "?A \<in> set (getAllFiles (cacheDirectory cfgLocked) fsLocked)" by code_simp
  have l: "?L \<in> set (getAllFiles (cacheDirectory cfgLocked) fsLocked)" by code_simp
  have k: "?K \<in> set (getAllFiles (cacheDirectory cfgLocked) fsLocked)" by code_simp
  have b: "?B \<in> set (getAllFiles (cacheDirectory cfgLocked) fsLocked)" by code_simp
  have c: "ttlMs cfgLocked = 24" "deletable fsLocked [''cache'', ''A'']"
    "\<not> deletable fsLocked [''cache'', ''L'']"
    by code_simp+
  have lru: "lruFiles (fst (runCleanup cfgLocked 48 fsLocked)) =
      [[''cache'', ''sub'', ''C''], [''cache'', ''sub'', ''B'']]"
    by (simp add: runCleanup_fsLocked)
  from ttl_phase [OF wellFormed_fsLocked a run, THEN conjunct2]
    ttl_phase [OF wellFormed_fsLocked l run, THEN conjunct2]
    ttl_phase [OF wellFormed_fsLocked k run, THEN conjunct2]
    ttl_phase [OF wellFormed_fsLocked b run, THEN conjunct2]
  show ?thesis using wellFormed_fsLocked run a l k b c lru by simp
qed

section \<open>Step 2: the size limit\<close>

text \<open>
  Claim C2. In a well-formed file system, when \<^verbatim>\<open>runCleanup\<close> records no error (every deletion
  it attempted succeeded), the files in the cache after the run are the survivors of step 1
  that are not listed in \<^verbatim>\<open>lruFiles\<close>, and either their total size is at most
  \<^verbatim>\<open>maxSizeBytes\<close> or none of them is left.
\<close>

theorem size_limit_or_exhausted:
  assumes wf: "wellFormed fs" and run: "runCleanup cfg now fs = (r, fs')"
    and noerr: "errors r = []"
  shows "getAllFiles (cacheDirectory cfg) fs' =
           filter (\<lambda>f. path f \<notin> set (lruFiles r))
             (filter (\<lambda>f. now - modTime f \<le> ttlMs cfg) (getAllFiles (cacheDirectory cfg) fs))
     \<and> (totalSize (getAllFiles (cacheDirectory cfg) fs') \<le> maxSizeBytes cfg
        \<or> getAllFiles (cacheDirectory cfg) fs' = [])"
proof -
  have dist: "distinct (map path (getAllFiles (cacheDirectory cfg) fs))"
    using wf by (rule getAllFiles_distinct)
  from run have r: "r = fst (runCleanup cfg now fs)" and fs': "fs' = snd (runCleanup cfg now fs)"
    by simp_all
  have l: "set (lruFiles r) = path ` set (lruDeleted cfg now fs)"
    unfolding r by (simp add: runCleanup_closed [OF dist])
  from noerr have "errors (fst (runCleanup cfg now fs)) = []" by (simp add: r)
  from after_run_no_errors [OF dist this] show ?thesis
    unfolding l fs' survivors_eq by blast
qed

theorem size_limit_or_exhausted_witness:
  "wellFormed fsExample
   \<and> runCleanup cfgExample 48 fsExample =
       (\<lparr>filesDeleted = 1, bytesFreed = 100, expiredFiles = [],
         lruFiles = [[''cache'', ''A'']], errors = []\<rparr>,
        removeAt [''cache'', ''A''] fsExample)
   \<and> getAllFiles (cacheDirectory cfgExample) (removeAt [''cache'', ''A''] fsExample) =
       [\<lparr>path = [''cache'', ''sub'', ''B''], fsize = 100, accessTime = 7, modTime = 47\<rparr>]
   \<and> (totalSize (getAllFiles (cacheDirectory cfgExample) (removeAt [''cache'', ''A''] fsExample))
         \<le> maxSizeBytes cfgExample
       \<or> getAllFiles (cacheDirectory cfgExample) (removeAt [''cache'', ''A''] fsExample) = [])"
proof -
  have inv: "getAllFiles (cacheDirectory cfgExample) (removeAt [''cache'', ''A''] fsExample) =
       [\<lparr>path = [''cache'', ''sub'', ''B''], fsize = 100, accessTime = 7, modTime = 47\<rparr>]"
    by code_simp
  have e: "errors \<lparr>filesDeleted = 1, bytesFreed = 100, expiredFiles = [],
         lruFiles = [[''cache'', ''A'']], errors = []\<rparr> = []"
    by simp
  from size_limit_or_exhausted [OF wellFormed_fsExample runCleanup_fsExample e]
  have "totalSize (getAllFiles (cacheDirectory cfgExample) (removeAt [''cache'', ''A''] fsExample))
         \<le> maxSizeBytes cfgExample
       \<or> getAllFiles (cacheDirectory cfgExample) (removeAt [''cache'', ''A''] fsExample) = []"
    by (rule conjunct2)
  with wellFormed_fsExample runCleanup_fsExample inv show ?thesis by blast
qed

text \<open>
  Claim C4, as stated, fails: with \<^verbatim>\<open>maxSizeBytes = 0\<close> and no failed deletion, the run deletes
  \<^verbatim>\<open>A\<close>, the running total is then 0, which is not above the limit, and the empty file
  \<^verbatim>\<open>Z\<close> stays in the cache.
\<close>

theorem zero_limit_counterexample:
  "wellFormed fsZero
   \<and> maxSizeBytes cfgZero = 0
   \<and> errors (fst (runCleanup cfgZero 48 fsZero)) = []
   \<and> lruFiles (fst (runCleanup cfgZero 48 fsZero)) = [[''cache'', ''A'']]
   \<and> getAllFiles (cacheDirectory cfgZero) (snd (runCleanup cfgZero 48 fsZero)) =
       [\<lparr>path = [''cache'', ''Z''], fsize = 0, accessTime = 9, modTime = 40\<rparr>]"
  by code_simp

text \<open>
  Claim C4, amended. In a well-formed file system, when \<^verbatim>\<open>maxSizeBytes = 0\<close> and \<^verbatim>\<open>runCleanup\<close>
  records no error, every file in the cache after the run has size 0; so when every scanned
  file has a positive size, no file remains.
\<close>

theorem zero_limit_leaves_only_empty_files:
  assumes wf: "wellFormed fs" and run: "runCleanup cfg now fs = (r, fs')"
    and noerr: "errors r = []" and zero: "maxSizeBytes cfg = 0"
  shows "(\<forall>f\<in>set (getAllFiles (cacheDirectory cfg) fs'). fsize f = 0)
     \<and> ((\<forall>f\<in>set (getAllFiles (cacheDirectory cfg) fs). 0 < fsize f)
          \<longrightarrow> getAllFiles (cacheDirectory cfg) fs' = [])"
proof -
  let ?files = "getAllFiles (cacheDirectory cfg) fs"
  let ?files' = "getAllFiles (cacheDirectory cfg) fs'"
  have dist: "distinct (map path ?files)" using wf by (rule getAllFiles_distinct)
  from run have r: "r = fst (runCleanup cfg now fs)" and fs': "fs' = snd (runCleanup cfg now fs)"
    by simp_all
  from noerr have "errors (fst (runCleanup cfg now fs)) = []" by (simp add: r)
  from after_run_no_errors(2) [OF dist this] zero
  have "totalSize ?files' \<le> 0 \<or> ?files' = []" by (simp add: fs')
  then have 1: "\<forall>f\<in>set ?files'. fsize f = 0" by (auto simp: totalSize_sum)
  have "set ?files' \<subseteq> set ?files" unfolding fs' inventory_after_run [OF dist] by auto
  with 1 have 2: "(\<forall>f\<in>set ?files. 0 < fsize f) \<longrightarrow> ?files' = []"
    by (cases ?files') auto
  from 1 2 show ?thesis by blast
qed

theorem zero_limit_leaves_only_empty_files_witness:
  "wellFormed fsZero
   \<and> runCleanup cfgZero 48 fsZero =
       (\<lparr>filesDeleted = 1, bytesFreed = 100, expiredFiles = [],
         lruFiles = [[''cache'', ''A'']], errors = []\<rparr>,
        removeAt [''cache'', ''A''] fsZero)
   \<and> maxSizeBytes cfgZero = 0
   \<and> \<lparr>path = [''cache'', ''Z''], fsize = 0, accessTime = 9, modTime = 40\<rparr>
        \<in> set (getAllFiles (cacheDirectory cfgZero) (removeAt [''cache'', ''A''] fsZero))
   \<and> fsize \<lparr>path = [''cache'', ''Z''], fsize = 0, accessTime = 9, modTime = 40\<rparr> = 0"
proof -
  have z: "maxSizeBytes cfgZero = 0" by code_simp
  have m: "\<lparr>path = [''cache'', ''Z''], fsize = 0, accessTime = 9, modTime = 40\<rparr>
        \<in> set (getAllFiles (cacheDirectory cfgZero) (removeAt [''cache'', ''A''] fsZero))"
    by code_simp
  have e: "errors \<lparr>filesDeleted = 1, bytesFreed = 100, expiredFiles = [],
         lruFiles = [[''cache'', ''A'']], errors = []\<rparr> = []"
    by simp
  from zero_limit_leaves_only_empty_files [OF wellFormed_fsZero runCleanup_fsZero e z] m
  have "fsize \<lparr>path = [''cache'', ''Z''], fsize = 0, accessTime = 9, modTime = 40\<rparr> = 0"
    by blast
  with wellFormed_fsZero runCleanup_fsZero z m show ?thesis by blast
qed

text \<open>
  Claim C5. The paths in \<^verbatim>\<open>lruFiles\<close> are, in this order, the paths of a subsequence of the
  survivors of step 1 sorted by access time; so the files of step 2 are deleted in
  non-decreasing order of access time.
\<close>

theorem lru_deletion_order:
  assumes run: "runCleanup cfg now fs = (r, fs')"
  shows "\<exists>ds. lruFiles r = map path ds
     \<and> subseq ds (sort_key accessTime
          (filter (\<lambda>f. now - modTime f \<le> ttlMs cfg) (getAllFiles (cacheDirectory cfg) fs)))
     \<and> sorted (map accessTime ds)"
proof -
  let ?S = "filter (\<lambda>f. \<not> now - modTime f > ttlMs cfg) (getAllFiles (cacheDirectory cfg) fs)"
  from runCleanup_report [where now = now and cfg = cfg and fs = fs] run
  obtain ds2 where d2: "subseq ds2 (sort_key accessTime ?S)" and l: "lruFiles r = map path ds2"
    by auto
  have "sorted (map accessTime (sort_key accessTime ?S))" by (rule sorted_sort_key)
  with d2 have "sorted (map accessTime ds2)" by (rule subseq_sorted_map)
  with d2 l show ?thesis by (auto simp: not_less)
qed

theorem lru_deletion_order_witness:
  "runCleanup cfgLocked 48 fsLocked =
       (\<lparr>filesDeleted = 3, bytesFreed = 250, expiredFiles = [[''cache'', ''A'']],
         lruFiles = [[''cache'', ''sub'', ''C''], [''cache'', ''sub'', ''B'']],
         errors = [''Failed to delete expired file: cache/L'',
                   ''Failed to delete LRU file: cache/K'']\<rparr>,
        fsLockedAfter)
   \<and> (\<exists>ds. [[''cache'', ''sub'', ''C''], [''cache'', ''sub'', ''B'']] = map path ds
         \<and> subseq ds (sort_key accessTime
              (filter (\<lambda>f. 48 - modTime f \<le> ttlMs cfgLocked)
                 (getAllFiles (cacheDirectory cfgLocked) fsLocked)))
         \<and> sorted (map accessTime ds))"
  using runCleanup_fsLocked lru_deletion_order [OF runCleanup_fsLocked]
  by simp

section \<open>A second run\<close>

text \<open>
  Claim C6. In a well-formed file system, a second \<^verbatim>\<open>runCleanup\<close> with the same
  configuration at the same time, on the file system that the first run left, deletes
  nothing: \<^verbatim>\<open>filesDeleted = 0\<close>, \<^verbatim>\<open>bytesFreed = 0\<close>, \<^verbatim>\<open>expiredFiles\<close> and \<^verbatim>\<open>lruFiles\<close> are
  empty, and the file system is unchanged.
\<close>

theorem second_run_deletes_nothing:
  assumes wf: "wellFormed fs" and run: "runCleanup cfg now fs = (r1, fs1)"
  shows "filesDeleted (fst (runCleanup cfg now fs1)) = 0
     \<and> bytesFreed (fst (runCleanup cfg now fs1)) = 0
     \<and> expiredFiles (fst (runCleanup cfg now fs1)) = []
     \<and> lruFiles (fst (runCleanup cfg now fs1)) = []
     \<and> snd (runCleanup cfg now fs1) = fs1"
proof -
  let ?files = "getAllFiles (cacheDirectory cfg) fs"
  let ?files1 = "getAllFiles (cacheDirectory cfg) fs1"
  let ?gone = "path ` set (expiredDeleted cfg now fs @ lruDeleted cfg now fs)"
  have dist: "distinct (map path ?files)" using wf by (rule getAllFiles_distinct)
  from run have fs1: "fs1 = snd (runCleanup cfg now fs)" by simp
  have inv: "?files1 = filter (\<lambda>f. path f \<notin> ?gone) ?files"
    unfolding fs1 by (rule inventory_after_run [OF dist])
  have dist1: "distinct (map path ?files1)"
    unfolding inv using dist by (rule distinct_map_filter)
  have del: "deletable fs1 p \<longleftrightarrow> p \<notin> ?gone \<and> deletable fs p" for p
    unfolding fs1 deletable_fileAt fileAt_after_run [OF dist] by auto
  have e: "expiredDeleted cfg now fs1 = []"
  proof -
    have "\<not> (isExpired cfg now f \<and> deletable fs1 (path f))" if "f \<in> set ?files1" for f
    proof
      assume a: "isExpired cfg now f \<and> deletable fs1 (path f)"
      from that inv have f: "f \<in> set ?files" by simp
      with a del have "f \<in> set (expiredDeleted cfg now fs)" by (simp add: expiredDeleted_def)
      then have "path f \<in> ?gone" by auto
      with a del show False by simp
    qed
    then show ?thesis by (simp add: expiredDeleted_def filter_empty_conv)
  qed
  have l: "lruDeleted cfg now fs1 = []"
  proof -
    from run_end [OF dist, of now]
    have "totalSize (survivors cfg now fs1) \<le> maxSizeBytes cfg
       \<or> set (lruTried cfg now fs) = set (survivors cfg now fs)"
      by (simp add: fs1)
    then show ?thesis
    proof
      assume "totalSize (survivors cfg now fs1) \<le> maxSizeBytes cfg"
      then show ?thesis by (simp add: lruDeleted_def lruTried_def)
    next
      assume all: "set (lruTried cfg now fs) = set (survivors cfg now fs)"
      have "\<not> deletable fs1 (path f)" if "f \<in> set (lruTried cfg now fs1)" for f
      proof
        assume d: "deletable fs1 (path f)"
        from that lruTried_survivors have "f \<in> set (survivors cfg now fs1)" by blast
        then have "f \<in> set (survivors cfg now fs)"
          unfolding fs1 survivors_after_run [OF dist] by simp
        with all have "f \<in> set (lruTried cfg now fs)" by simp
        moreover from d del have "deletable fs (path f)" by simp
        ultimately have "f \<in> set (lruDeleted cfg now fs)" by (simp add: lruDeleted_def)
        then have "path f \<in> ?gone" by auto
        with d del show False by simp
      qed
      then show ?thesis by (simp add: lruDeleted_def filter_empty_conv)
    qed
  qed
  show ?thesis by (simp add: runCleanup_closed [OF dist1] e l)
qed

theorem second_run_deletes_nothing_witness:
  "wellFormed fsLocked
   \<and> runCleanup cfgLocked 48 fsLocked =
       (\<lparr>filesDeleted = 3, bytesFreed = 250, expiredFiles = [[''cache'', ''A'']],
         lruFiles = [[''cache'', ''sub'', ''C''], [''cache'', ''sub'', ''B'']],
         errors = [''Failed to delete expired file: cache/L'',
                   ''Failed to delete LRU file: cache/K'']\<rparr>,
        fsLockedAfter)
   \<and> filesDeleted (fst (runCleanup cfgLocked 48 fsLockedAfter)) = 0
   \<and> bytesFreed (fst (runCleanup cfgLocked 48 fsLockedAfter)) = 0
   \<and> expiredFiles (fst (runCleanup cfgLocked 48 fsLockedAfter)) = []
   \<and> lruFiles (fst (runCleanup cfgLocked 48 fsLockedAfter)) = []
   \<and> snd (runCleanup cfgLocked 48 fsLockedAfter) = fsLockedAfter
   \<and> errors (fst (runCleanup cfgLocked 48 fsLockedAfter)) =
       [''Failed to delete expired file: cache/L'']"
proof -
  have "errors (fst (runCleanup cfgLocked 48 fsLockedAfter)) =
       [''Failed to delete expired file: cache/L'']"
    by code_simp
  with wellFormed_fsLocked runCleanup_fsLocked
    second_run_deletes_nothing [OF wellFormed_fsLocked runCleanup_fsLocked]
  show ?thesis by blast
qed

section \<open>Failed deletions\<close>

text \<open>
  Claim C7. \<^verbatim>\<open>runCleanup\<close> is a total function: a failing \<^verbatim>\<open>unlink\<close> is a value, not an
  exception. In a well-formed file system the list \<^verbatim>\<open>errors\<close> holds one entry, naming the
  phase and the path, for every expired file on which \<^verbatim>\<open>unlink\<close> fails, then one for every
  file reached by step 2 on which it fails. Failures stop nothing: every expired file on
  which \<^verbatim>\<open>unlink\<close> succeeds is listed in \<^verbatim>\<open>expiredFiles\<close>, every file reached by step 2 on
  which it succeeds is listed in \<^verbatim>\<open>lruFiles\<close>, and step 2 reaches a survivor whenever the
  total size of the survivors, less the deletable ones sorted before it, still exceeds
  \<^verbatim>\<open>maxSizeBytes\<close>.
\<close>

theorem deletion_failures_are_recorded:
  assumes wf: "wellFormed fs" and run: "runCleanup cfg now fs = (r, fs')"
  shows "errors r =
       map (\<lambda>f. ''Failed to delete expired file: '' @ pathString (path f))
         (filter (\<lambda>f. now - modTime f > ttlMs cfg \<and> \<not> deletable fs (path f))
            (getAllFiles (cacheDirectory cfg) fs))
       @ map (\<lambda>f. ''Failed to delete LRU file: '' @ pathString (path f))
           (filter (\<lambda>f. \<not> deletable fs (path f)) (lruTried cfg now fs))
     \<and> expiredFiles r =
         map path (filter (\<lambda>f. now - modTime f > ttlMs cfg \<and> deletable fs (path f))
                     (getAllFiles (cacheDirectory cfg) fs))
     \<and> lruFiles r = map path (filter (\<lambda>f. deletable fs (path f)) (lruTried cfg now fs))
     \<and> (\<forall>ys f zs.
          sort_key accessTime
            (filter (\<lambda>f. now - modTime f \<le> ttlMs cfg) (getAllFiles (cacheDirectory cfg) fs))
            = ys @ f # zs
          \<and> maxSizeBytes cfg
              < totalSize (filter (\<lambda>f. now - modTime f \<le> ttlMs cfg)
                             (getAllFiles (cacheDirectory cfg) fs))
                - totalSize (filter (\<lambda>g. deletable fs (path g)) ys)
          \<longrightarrow> f \<in> set (lruTried cfg now fs))"
proof -
  have dist: "distinct (map path (getAllFiles (cacheDirectory cfg) fs))"
    using wf by (rule getAllFiles_distinct)
  from run runCleanup_closed [OF dist, of now]
  have "errors r =
       map (\<lambda>f. ''Failed to delete expired file: '' @ pathString (path f))
         (expiredFailed cfg now fs)
       @ map (\<lambda>f. ''Failed to delete LRU file: '' @ pathString (path f)) (lruFailed cfg now fs)"
    and "expiredFiles r = map path (expiredDeleted cfg now fs)"
    and "lruFiles r = map path (lruDeleted cfg now fs)"
    by auto
  then have 1: "errors r =
       map (\<lambda>f. ''Failed to delete expired file: '' @ pathString (path f))
         (filter (\<lambda>f. now - modTime f > ttlMs cfg \<and> \<not> deletable fs (path f))
            (getAllFiles (cacheDirectory cfg) fs))
       @ map (\<lambda>f. ''Failed to delete LRU file: '' @ pathString (path f))
           (filter (\<lambda>f. \<not> deletable fs (path f)) (lruTried cfg now fs))"
    and 2: "expiredFiles r =
         map path (filter (\<lambda>f. now - modTime f > ttlMs cfg \<and> deletable fs (path f))
                     (getAllFiles (cacheDirectory cfg) fs))"
    and 3: "lruFiles r = map path (filter (\<lambda>f. deletable fs (path f)) (lruTried cfg now fs))"
    by (simp_all add: expiredFailed_def expiredDeleted_def lruFailed_def lruDeleted_def
          isExpired_def)
  have 4: "f \<in> set (lruTried cfg now fs)"
    if "sort_key accessTime (survivors cfg now fs) = ys @ f # zs"
      and "maxSizeBytes cfg
            < totalSize (survivors cfg now fs) - totalSize (filter (\<lambda>g. deletable fs (path g)) ys)"
    for ys f zs
  proof -
    have "0 \<le> totalSize (filter (\<lambda>g. deletable fs (path g)) ys)" by (simp add: totalSize_sum)
    with that(2) have "maxSizeBytes cfg < totalSize (survivors cfg now fs)" by linarith
    then have "lruTried cfg now fs =
        lruAttempts (maxSizeBytes cfg) (deletable fs) (totalSize (survivors cfg now fs))
          (ys @ f # zs)"
      by (simp add: lruTried_def that(1))
    then show ?thesis using lruAttempts_reaches [OF that(2)] by simp
  qed
  from 1 2 3 4 show ?thesis unfolding survivors_eq by blast
qed

theorem deletion_failures_are_recorded_witness:
  "wellFormed fsLocked
   \<and> runCleanup cfgLocked 48 fsLocked =
       (\<lparr>filesDeleted = 3, bytesFreed = 250, expiredFiles = [[''cache'', ''A'']],
         lruFiles = [[''cache'', ''sub'', ''C''], [''cache'', ''sub'', ''B'']],
         errors = [''Failed to delete expired file: cache/L'',
                   ''Failed to delete LRU file: cache/K'']\<rparr>,
        fsLockedAfter)
   \<and> [''Failed to delete expired file: cache/L'', ''Failed to delete LRU file: cache/K''] =
       map (\<lambda>f. ''Failed to delete expired file: '' @ pathString (path f))
         (filter (\<lambda>f. 48 - modTime f > ttlMs cfgLocked \<and> \<not> deletable fsLocked (path f))
            (getAllFiles (cacheDirectory cfgLocked) fsLocked))
       @ map (\<lambda>f. ''Failed to delete LRU file: '' @ pathString (path f))
           (filter (\<lambda>f. \<not> deletable fsLocked (path f)) (lruTried cfgLocked 48 fsLocked))
   \<and> lruTried cfgLocked 48 fsLocked =
       [\<lparr>path = [''cache'', ''K''], fsize = 40, accessTime = 1, modTime = 40\<rparr>,
        \<lparr>path = [''cache'', ''sub'', ''C''], fsize = 50, accessTime = 3, modTime = 45\<rparr>,
        \<lparr>path = [''cache'', ''sub'', ''B''], fsize = 100, accessTime = 7, modTime = 47\<rparr>]"
proof -
  have "lruTried cfgLocked 48 fsLocked =
       [\<lparr>path = [''cache'', ''K''], fsize = 40, accessTime = 1, modTime = 40\<rparr>,
        \<lparr>path = [''cache'', ''sub'', ''C''], fsize = 50, accessTime = 3, modTime = 45\<rparr>,
        \<lparr>path = [''cache'', ''sub'', ''B''], fsize = 100, accessTime = 7, modTime = 47\<rparr>]"
    by code_simp
  with wellFormed_fsLocked runCleanup_fsLocked
    deletion_failures_are_recorded [OF wellFormed_fsLocked runCleanup_fsLocked]
  show ?thesis by simp
qed

section \<open>The report\<close>

text \<open>
  Claim C10. In the report of \<^verbatim>\<open>runCleanup\<close>, \<^verbatim>\<open>filesDeleted\<close> is the length of
  \<^verbatim>\<open>expiredFiles\<close> plus the length of \<^verbatim>\<open>lruFiles\<close>, \<^verbatim>\<open>bytesFreed\<close> is the sum of the sizes
  recorded in the inventory for the files listed, and no path is in both lists.
\<close>

theorem report_is_consistent:
  assumes run: "runCleanup cfg now fs = (r, fs')"
  shows "filesDeleted r = length (expiredFiles r) + length (lruFiles r)
     \<and> (\<exists>ds. set ds \<subseteq> set (getAllFiles (cacheDirectory cfg) fs)
            \<and> map path ds = expiredFiles r @ lruFiles r
            \<and> bytesFreed r = sum_list (map fsize ds))
     \<and> set (expiredFiles r) \<inter> set (lruFiles r) = {}"
proof -
  let ?files = "getAllFiles (cacheDirectory cfg) fs"
  let ?P = "\<lambda>f. now - modTime f > ttlMs cfg"
  from runCleanup_report [where now = now and cfg = cfg and fs = fs] run
  obtain ds1 ds2 es where d1: "subseq ds1 (filter ?P ?files)"
    and d2: "subseq ds2 (sort_key accessTime (filter (\<lambda>f. \<not> ?P f) ?files))"
    and r: "r = \<lparr>filesDeleted = length ds1 + length ds2,
         bytesFreed = sum_list (map fsize ds1) + sum_list (map fsize ds2),
         expiredFiles = map path ds1, lruFiles = map path ds2, errors = es\<rparr>"
    by auto
  have s1: "set ds1 \<subseteq> {f \<in> set ?files. ?P f}"
    using subseq_subset [OF d1] by auto
  have s2: "set ds2 \<subseteq> {f \<in> set ?files. \<not> ?P f}"
    using subseq_subset [OF d2] by auto
  have 1: "filesDeleted r = length (expiredFiles r) + length (lruFiles r)"
    by (simp add: r)
  have 2: "\<exists>ds. set ds \<subseteq> set ?files \<and> map path ds = expiredFiles r @ lruFiles r
            \<and> bytesFreed r = sum_list (map fsize ds)"
    by (rule exI [of _ "ds1 @ ds2"]) (use s1 s2 in \<open>auto simp: r\<close>)
  have "path g \<noteq> path h" if g: "g \<in> set ds1" and h: "h \<in> set ds2" for g h
  proof
    assume eq: "path g = path h"
    from g s1 have g': "g \<in> set ?files" "?P g" by auto
    from h s2 have h': "h \<in> set ?files" "\<not> ?P h" by auto
    from getAllFiles_stat [OF g'(1)] getAllFiles_stat [OF h'(1)] eq
    have "modTime g = modTime h" by simp
    with g'(2) h'(2) show False by simp
  qed
  then have 3: "set (expiredFiles r) \<inter> set (lruFiles r) = {}"
    by (auto simp: r)
  from 1 2 3 show ?thesis by blast
qed

theorem report_is_consistent_witness:
  "runCleanup cfgLocked 48 fsLocked =
       (\<lparr>filesDeleted = 3, bytesFreed = 250, expiredFiles = [[''cache'', ''A'']],
         lruFiles = [[''cache'', ''sub'', ''C''], [''cache'', ''sub'', ''B'']],
         errors = [''Failed to delete expired file: cache/L'',
                   ''Failed to delete LRU file: cache/K'']\<rparr>,
        fsLockedAfter)
   \<and> (3::nat) = length [[''cache'', ''A'']]
                 + length [[''cache'', ''sub'', ''C''], [''cache'', ''sub'', ''B'']]
   \<and> (\<exists>ds. set ds \<subseteq> set (getAllFiles (cacheDirectory cfgLocked) fsLocked)
          \<and> map path ds = [[''cache'', ''A'']]
                @ [[''cache'', ''sub'', ''C''], [''cache'', ''sub'', ''B'']]
          \<and> (250::nat) = sum_list (map fsize ds))"
  using runCleanup_fsLocked report_is_consistent [OF runCleanup_fsLocked]
  by simp

section \<open>A cache root that is missing, unreadable or empty\<close>

lemma getAllFiles_nothing:
  "readdir cacheDir fs = None \<or> readdir cacheDir fs = Some [] \<Longrightarrow> getAllFiles cacheDir fs = []"
  by (auto simp: getAllFiles.simps [of cacheDir fs])

text \<open>
  Claim C8. When \<^verbatim>\<open>readdir\<close> fails on the cache root (the root is missing, is not a
  directory, or cannot be read) or lists nothing, the scan yields the empty inventory,
  \<^verbatim>\<open>runCleanup\<close> returns the report with no deletion and no error and leaves the file system
  as it is, and \<^verbatim>\<open>getCacheStats\<close> returns zero files, zero bytes and no oldest or newest
  file.
\<close>

theorem empty_root_is_no_error:
  assumes "readdir cacheDir fs = None \<or> readdir cacheDir fs = Some []"
  shows "getAllFiles cacheDir fs = []
    \<and> runCleanup \<lparr>cacheDirectory = cacheDir, maxSizeBytes = limit, ttlMs = ttl\<rparr> now fs =
        (\<lparr>filesDeleted = 0, bytesFreed = 0, expiredFiles = [], lruFiles = [], errors = []\<rparr>, fs)
    \<and> getCacheStats cacheDir now fs =
        \<lparr>totalFiles = 0, totalSizeBytes = 0, totalSizeGb = 0,
         oldestFile = None, newestFile = None\<rparr>"
proof -
  have "getAllFiles cacheDir fs = []" using assms by (rule getAllFiles_nothing)
  then show ?thesis by (simp add: runCleanup_def getCacheStats_def emptyResult_def)
qed

theorem empty_root_is_no_error_witness:
  "readdir [''cache''] (Dir True []) = None
   \<and> getAllFiles [''cache''] (Dir True []) = []
   \<and> runCleanup \<lparr>cacheDirectory = [''cache''], maxSizeBytes = 10, ttlMs = 5\<rparr> 48 (Dir True []) =
        (\<lparr>filesDeleted = 0, bytesFreed = 0, expiredFiles = [], lruFiles = [], errors = []\<rparr>,
         Dir True [])
   \<and> getCacheStats [''cache''] 48 (Dir True []) =
        \<lparr>totalFiles = 0, totalSizeBytes = 0, totalSizeGb = 0,
         oldestFile = None, newestFile = None\<rparr>
   \<and> readdir [''cache''] (Dir True [(''cache'', Dir False [(''A'', Other)])]) = None
   \<and> runCleanup \<lparr>cacheDirectory = [''cache''], maxSizeBytes = 10, ttlMs = 5\<rparr> 48
        (Dir True [(''cache'', Dir False [(''A'', Other)])]) =
        (\<lparr>filesDeleted = 0, bytesFreed = 0, expiredFiles = [], lruFiles = [], errors = []\<rparr>,
         Dir True [(''cache'', Dir False [(''A'', Other)])])
   \<and> readdir [''cache''] (Dir True [(''cache'', Dir True [])]) = Some []
   \<and> runCleanup \<lparr>cacheDirectory = [''cache''], maxSizeBytes = 10, ttlMs = 5\<rparr> 48
        (Dir True [(''cache'', Dir True [])]) =
        (\<lparr>filesDeleted = 0, bytesFreed = 0, expiredFiles = [], lruFiles = [], errors = []\<rparr>,
         Dir True [(''cache'', Dir True [])])"
proof -
  have 1: "readdir [''cache''] (Dir True []) = None" by (simp add: readdir_def)
  have 2: "readdir [''cache''] (Dir True [(''cache'', Dir False [(''A'', Other)])]) = None"
    by (simp add: readdir_def)
  have 3: "readdir [''cache''] (Dir True [(''cache'', Dir True [])]) = Some []"
    by (simp add: readdir_def)
  show ?thesis
    using 1 2 3
      empty_root_is_no_error [OF disjI1 [OF 1], of 10 5 48]
      empty_root_is_no_error [OF disjI1 [OF 2], of 10 5 48]
      empty_root_is_no_error [OF disjI2 [OF 3], of 10 5 48]
    by simp
qed

section \<open>Empty directories\<close>

text \<open>
  \<^verbatim>\<open>runCleanup\<close> calls \<^verbatim>\<open>cleanEmptyDirs\<close> with the cache root as both arguments; the call
  returns the file system as it is (\<open>cleanEmptyDirs_root\<close>). So a run unlinks files and
  removes no directory: every directory entry of a directory is still listed after the run.
\<close>

lemma readdir_fold_removeAt:
  "distinct qs \<Longrightarrow> \<forall>q\<in>set qs. q \<noteq> [] \<and> fileAt s q \<noteq> None \<Longrightarrow>
   readdir dir (fold removeAt qs s) =
     map_option (filter (\<lambda>e. join dir (d_name e) \<notin> set qs)) (readdir dir s)"
proof (induction qs arbitrary: s)
  case Nil
  then show ?case by (simp add: option.map_ident)
next
  case (Cons q qs)
  have "\<forall>q'\<in>set qs. q' \<noteq> [] \<and> fileAt (removeAt q s) q' \<noteq> None"
    using Cons.prems by (auto simp: fileAt_removeAt)
  then have "readdir dir (fold removeAt qs (removeAt q s)) =
      map_option (filter (\<lambda>e. join dir (d_name e) \<notin> set qs)) (readdir dir (removeAt q s))"
    using Cons.IH Cons.prems(1) by simp
  also have "readdir dir (removeAt q s) =
      map_option (filter (\<lambda>e. join dir (d_name e) \<noteq> q)) (readdir dir s)"
    using Cons.prems by (simp add: readdir_removeAt)
  finally show ?case by (simp add: option.map_comp comp_def conj_commute)
qed

lemma readdir_entry_kind:
  assumes wf: "wellFormed fs" and r: "readdir dir fs = Some entries" and e: "e \<in> set entries"
  shows "\<exists>m. lookup fs (join dir (d_name e)) = Some m \<and> kindOf m = d_kind e"
proof -
  from r obtain es where d: "lookup fs dir = Some (Dir True es)"
    and en: "entries = map (\<lambda>(k, m). Dirent k (kindOf m)) es"
    by (auto simp: readdir_def split: option.splits node.splits bool.splits)
  from e en obtain k m where km: "(k, m) \<in> set es" and e': "e = Dirent k (kindOf m)" by auto
  from wellFormed_lookup [OF wf d] have "distinct (map fst es)" by simp
  with km have "map_of es k = Some m" by simp
  with d e' show ?thesis by (simp add: join_def lookup_join)
qed

lemma runCleanup_removes_no_directory:
  assumes wf: "wellFormed fs" and r: "readdir dir fs = Some entries"
    and e: "e \<in> set entries" and k: "isDirectory e"
  shows "\<exists>entries'. readdir dir (snd (runCleanup cfg now fs)) = Some entries' \<and> e \<in> set entries'"
proof -
  let ?gone = "map path (expiredDeleted cfg now fs @ lruDeleted cfg now fs)"
  have dist: "distinct (map path (getAllFiles (cacheDirectory cfg) fs))"
    using wf by (rule getAllFiles_distinct)
  have a: "\<forall>q\<in>set ?gone. q \<noteq> [] \<and> fileAt fs q \<noteq> None"
    using deleted_are_files [of _ cfg now fs] by blast
  have "readdir dir (snd (runCleanup cfg now fs)) =
      map_option (filter (\<lambda>e. join dir (d_name e) \<notin> set ?gone)) (readdir dir fs)"
    unfolding runCleanup_fs [OF dist]
    using deleted_distinct [OF dist] a by (rule readdir_fold_removeAt)
  then have 1: "readdir dir (snd (runCleanup cfg now fs)) =
      Some (filter (\<lambda>e. join dir (d_name e) \<notin> set ?gone) entries)"
    using r by simp
  from readdir_entry_kind [OF wf r e] k
  have "fileAt fs (join dir (d_name e)) = None"
    by (auto simp: fileAt_def isDirectory_def split: node.splits)
  with a have "join dir (d_name e) \<notin> set ?gone" by blast
  with e have "e \<in> set (filter (\<lambda>e. join dir (d_name e) \<notin> set ?gone) entries)" by simp
  with 1 show ?thesis by blast
qed

text \<open>
  Claim C3. The claim that every directory below the cache root that is left empty is
  removed does not hold of the code. Here both files of the example are expired and
  deleted; the subdirectory \<^verbatim>\<open>sub\<close>, strictly below the cache root, is left empty and is
  still there after the run. (The cache root is never removed, as the claim says.)
\<close>

theorem empty_directory_is_left_behind:
  "runCleanup \<lparr>cacheDirectory = [''cache''], maxSizeBytes = 1000, ttlMs = 24\<rparr> 100 fsExample =
     (\<lparr>filesDeleted = 2, bytesFreed = 200,
       expiredFiles = [[''cache'', ''A''], [''cache'', ''sub'', ''B'']],
       lruFiles = [], errors = []\<rparr>,
      Dir True [(''cache'', Dir True [(''sub'', Dir True [])])])
   \<and> readdir [''cache'', ''sub'']
        (snd (runCleanup \<lparr>cacheDirectory = [''cache''], maxSizeBytes = 1000, ttlMs = 24\<rparr>
               100 fsExample)) = Some []"
  by code_simp

section \<open>The oldest and the newest file\<close>

lemma firstMin_snoc:
  assumes "firstMin c seen"
  shows "firstMin (if modTime x < modTime c then x else c) (seen @ [x])"
proof -
  from assms obtain ys zs where l: "seen = ys @ c # zs"
    and ys: "\<forall>y\<in>set ys. modTime c < modTime y" and zs: "\<forall>z\<in>set zs. modTime c \<le> modTime z"
    unfolding firstMin_def by blast
  show ?thesis
  proof (cases "modTime x < modTime c")
    case True
    have b: "\<forall>y\<in>set seen. modTime x < modTime y"
    proof
      fix y assume "y \<in> set seen"
      then have "y \<in> set ys \<or> y = c \<or> y \<in> set zs" using l by auto
      then have "modTime c \<le> modTime y" using ys zs by force
      then show "modTime x < modTime y" using True by linarith
    qed
    have "firstMin x (seen @ [x])" unfolding firstMin_def
      by (rule exI [of _ seen], rule exI [of _ "[]"]) (simp add: b)
    then show ?thesis using True by simp
  next
    case False
    have a: "seen @ [x] = ys @ c # (zs @ [x])" using l by simp
    have b: "\<forall>z\<in>set (zs @ [x]). modTime c \<le> modTime z" using False zs by auto
    have "firstMin c (seen @ [x])" unfolding firstMin_def
      by (rule exI [of _ ys], rule exI [of _ "zs @ [x]"]) (use a b ys in simp)
    then show ?thesis using False by simp
  qed
qed

lemma firstMax_snoc:
  assumes "firstMax c seen"
  shows "firstMax (if modTime x > modTime c then x else c) (seen @ [x])"
proof -
  from assms obtain ys zs where l: "seen = ys @ c # zs"
    and ys: "\<forall>y\<in>set ys. modTime y < modTime c" and zs: "\<forall>z\<in>set zs. modTime z \<le> modTime c"
    unfolding firstMax_def by blast
  show ?thesis
  proof (cases "modTime x > modTime c")
    case True
    have b: "\<forall>y\<in>set seen. modTime y < modTime x"
    proof
      fix y assume "y \<in> set seen"
      then have "y \<in> set ys \<or> y = c \<or> y \<in> set zs" using l by auto
      then have "modTime y \<le> modTime c" using ys zs by force
      then show "modTime y < modTime x" using True by linarith
    qed
    have "firstMax x (seen @ [x])" unfolding firstMax_def
      by (rule exI [of _ seen], rule exI [of _ "[]"]) (simp add: b)
    then show ?thesis using True by simp
  next
    case False
    have a: "seen @ [x] = ys @ c # (zs @ [x])" using l by simp
    have b: "\<forall>z\<in>set (zs @ [x]). modTime z \<le> modTime c" using False zs by auto
    have "firstMax c (seen @ [x])" unfolding firstMax_def
      by (rule exI [of _ ys], rule exI [of _ "zs @ [x]"]) (use a b ys in simp)
    then show ?thesis using False by simp
  qed
qed

lemma oldestNewest_extremes:
  "firstMin a seen \<Longrightarrow> firstMax b seen \<Longrightarrow>
   \<exists>a' b'. oldestNewest xs (Some a, Some b) = (Some a', Some b')
      \<and> firstMin a' (seen @ xs) \<and> firstMax b' (seen @ xs)"
proof (induction xs arbitrary: a b seen)
  case Nil
  then show ?case by simp
next
  case (Cons x xs)
  have "firstMin (if modTime x < modTime a then x else a) (seen @ [x])"
    using Cons.prems(1) by (rule firstMin_snoc)
  moreover have "firstMax (if modTime x > modTime b then x else b) (seen @ [x])"
    using Cons.prems(2) by (rule firstMax_snoc)
  ultimately obtain a' b' where
    "oldestNewest xs (Some (if modTime x < modTime a then x else a),
                      Some (if modTime x > modTime b then x else b)) = (Some a', Some b')"
    "firstMin a' ((seen @ [x]) @ xs)" "firstMax b' ((seen @ [x]) @ xs)"
    using Cons.IH by blast
  then show ?case by (auto split: if_splits)
qed

text \<open>
  Claim C9. For a non-empty inventory, \<^verbatim>\<open>getCacheStats\<close> returns as \<^verbatim>\<open>oldestFile\<close> the first
  file of the inventory whose modification time is the least (every file scanned before it
  is strictly newer, every file after it is at least as new), as \<^verbatim>\<open>newestFile\<close> the first
  file whose modification time is the greatest, each with its path and the age
  \<open>now - modTime\<close>.
\<close>

theorem oldest_and_newest_file:
  assumes "getAllFiles dir fs \<noteq> []"
  shows "\<exists>old new.
           oldestFile (getCacheStats dir now fs) = Some (path old, now - modTime old)
         \<and> newestFile (getCacheStats dir now fs) = Some (path new, now - modTime new)
         \<and> (\<exists>ys zs. getAllFiles dir fs = ys @ old # zs
               \<and> (\<forall>y\<in>set ys. modTime old < modTime y)
               \<and> (\<forall>z\<in>set zs. modTime old \<le> modTime z))
         \<and> (\<exists>ys zs. getAllFiles dir fs = ys @ new # zs
               \<and> (\<forall>y\<in>set ys. modTime y < modTime new)
               \<and> (\<forall>z\<in>set zs. modTime z \<le> modTime new))"
proof -
  from assms obtain f rest where files: "getAllFiles dir fs = f # rest"
    by (cases "getAllFiles dir fs") auto
  have "[f] = [] @ f # []" by simp
  then have "firstMin f [f]" "firstMax f [f]"
    unfolding firstMin_def firstMax_def by fastforce+
  then obtain a' b' where on: "oldestNewest rest (Some f, Some f) = (Some a', Some b')"
    and mn: "firstMin a' (f # rest)" and mx: "firstMax b' (f # rest)"
    using oldestNewest_extremes [of f "[f]" f rest] by auto
  have "oldestNewest (f # rest) (firstFile (f # rest), firstFile (f # rest)) = (Some a', Some b')"
    using on by (simp add: firstFile_def)
  then have "oldestFile (getCacheStats dir now fs) = Some (path a', now - modTime a')"
    "newestFile (getCacheStats dir now fs) = Some (path b', now - modTime b')"
    using files by (simp_all add: getCacheStats_def Let_def)
  moreover from mn obtain ys zs where "f # rest = ys @ a' # zs"
    "\<forall>y\<in>set ys. modTime a' < modTime y" "\<forall>z\<in>set zs. modTime a' \<le> modTime z"
    unfolding firstMin_def by blast
  moreover from mx obtain ys' zs' where "f # rest = ys' @ b' # zs'"
    "\<forall>y\<in>set ys'. modTime y < modTime b'" "\<forall>z\<in>set zs'. modTime z \<le> modTime b'"
    unfolding firstMax_def by blast
  ultimately show ?thesis unfolding files by blast
qed

theorem oldest_and_newest_file_witness:
  "getAllFiles [''cache''] fsExample \<noteq> []
   \<and> oldestFile (getCacheStats [''cache''] 48 fsExample) = Some ([''cache'', ''A''], 48)
   \<and> newestFile (getCacheStats [''cache''] 48 fsExample) = Some ([''cache'', ''sub'', ''B''], 1)
   \<and> (\<exists>old new.
           oldestFile (getCacheStats [''cache''] 48 fsExample) = Some (path old, 48 - modTime old)
         \<and> newestFile (getCacheStats [''cache''] 48 fsExample) = Some (path new, 48 - modTime new)
         \<and> (\<exists>ys zs. getAllFiles [''cache''] fsExample = ys @ old # zs
               \<and> (\<forall>y\<in>set ys. modTime old < modTime y)
               \<and> (\<forall>z\<in>set zs. modTime old \<le> modTime z))
         \<and> (\<exists>ys zs. getAllFiles [''cache''] fsExample = ys @ new # zs
               \<and> (\<forall>y\<in>set ys. modTime y < modTime new)
               \<and> (\<forall>z\<in>set zs. modTime z \<le> modTime new)))"
proof -
  have h: "getAllFiles [''cache''] fsExample \<noteq> []" by code_simp
  have o: "oldestFile (getCacheStats [''cache''] 48 fsExample) = Some ([''cache'', ''A''], 48)"
    by code_simp
  have n: "newestFile (getCacheStats [''cache''] 48 fsExample) = Some ([''cache'', ''sub'', ''B''], 1)"
    by code_simp
  from h o n oldest_and_newest_file [OF h, of 48] show ?thesis by blast
qed

end
